theory Spec2Isabelle
  imports Complex_Main "HOL-Library.Multiset" "HOL-Library.Sublist" "HOL-Library.Log_Nat"
    "HOL-Library.Word"
begin

section \<open>Strings and markers\<close>

text \<open>
  A Python \<open>str\<close> is a sequence of Unicode code points, and \<open>in\<close> on two strings is
  a search for a contiguous run of code points. The markers of \<open>main.py\<close> are Japanese
  text, so a string is modelled as the list of its code points. The frame of a sheet and
  the layout are computed in exact numbers (\<open>real\<close>); the offsets of the rows in the
  arithmetic of the machine, \<open>float64\<close> and \<open>int64\<close>, are in the section on machine
  arithmetic.
\<close>

type_synonym pystr = "nat list"

definition ascii :: "string \<Rightarrow> pystr" where
  "ascii s = map of_char s"

fun starts_with :: "pystr \<Rightarrow> pystr \<Rightarrow> bool" where
  "starts_with [] s = True"
| "starts_with (p # ps) [] = False"
| "starts_with (p # ps) (c # cs) = (p = c \<and> starts_with ps cs)"

text \<open>\<open>contains pat s\<close> is Python's \<open>pat in s\<close>.\<close>

fun contains :: "pystr \<Rightarrow> pystr \<Rightarrow> bool" where
  "contains pat [] = (pat = [])"
| "contains pat (c # cs) = (starts_with pat (c # cs) \<or> contains pat cs)"

definition CM :: pystr where
  "CM = [67, 77]"

definition VTR :: pystr where
  "VTR = [86, 84, 82]"

text \<open>U+4EBA U+529B, the department of human-powered aircraft.\<close>

definition JINRIKI :: pystr where
  "JINRIKI = [20154, 21147]"

text \<open>U+6ED1 U+7A7A, the department of gliders.\<close>

definition KAKKU :: pystr where
  "KAKKU = [28369, 31354]"

text \<open>U+30C0 U+30A4 U+30B8 U+30A7 U+30B9 U+30C8, "digest" in katakana.\<close>

definition DIGEST :: pystr where
  "DIGEST = [12480, 12452, 12472, 12455, 12473, 12488]"

text \<open>Python's \<open>s.strip()\<close> is falsy when every character of \<open>s\<close> is white space.\<close>

definition is_space :: "nat \<Rightarrow> bool" where
  "is_space c = (c \<in> {9, 10, 11, 12, 13, 28, 29, 30, 31, 32, 133, 160, 5760, 8232, 8233, 8239, 8287, 12288}
                 \<or> (8192 \<le> c \<and> c \<le> 8202))"

definition blank :: "pystr \<Rightarrow> bool" where
  "blank s = list_all is_space s"

section \<open>Colour of a bar: \<open>get_color\<close>\<close>

text \<open>\<open>note or ""\<close> and \<open>dept or ""\<close>: \<open>None\<close> reads as the empty string.\<close>

definition or_empty :: "pystr option \<Rightarrow> pystr" where
  "or_empty c = (case c of None \<Rightarrow> [] | Some s \<Rightarrow> s)"

definition get_color :: "pystr option \<Rightarrow> pystr option \<Rightarrow> string" where
  "get_color dept note' =
     (let note' = or_empty note'; dept = or_empty dept in
      if contains JINRIKI dept then
        (if contains VTR note' then ''#2fa0fc'' else ''#b3e9f8'')
      else if contains KAKKU dept then
        (if contains VTR note' then ''#00d65b'' else ''#cbf266'')
      else ''#c8c8cb'')"

section \<open>One sheet: \<open>process_sheet\<close>\<close>

text \<open>
  The table \<open>pd.read_excel\<close> returns, one record per spreadsheet row. A cell of the
  duration column is given as \<open>pd.to_numeric(..., errors="coerce")\<close> leaves it:
  \<open>None\<close> is NaN. A text cell is \<open>None\<close> when it is empty (NaN), which
  \<open>fillna("")\<close> turns into the empty string; a column the sheet does not have is
  a column of empty cells.
\<close>

record raw_row =
  raw_dur :: "real option"
  raw_team :: "pystr option"
  raw_dept :: "pystr option"
  raw_remark :: "pystr option"

text \<open>
  A row of the frame once it is cleaned: the duration, the team, the department, the
  remark and \<open>is_cm\<close>. The frame \<open>process_sheet\<close> returns has the columns
  \<open>start\<close>, \<open>end\<close> and \<open>is_digest\<close> as well.
\<close>

record row =
  dur :: real
  team :: pystr
  dept :: pystr
  remark :: pystr
  is_cm :: bool

record segment = row +
  start_s :: real
  end_s :: real
  is_digest :: bool

definition mask_cm :: "pystr \<Rightarrow> pystr \<Rightarrow> pystr \<Rightarrow> bool" where
  "mask_cm tm rm dp = (contains CM tm \<or> contains CM rm \<or> contains CM dp)"

text \<open>
  \<open>dropna(subset=[duration])\<close> and \<open>df[df[duration] > 0]\<close> drop the row
  (\<open>None\<close>); a row that stays has its text cells filled and its \<open>is_cm\<close> set.
\<close>

definition clean_row :: "raw_row \<Rightarrow> row option" where
  "clean_row r =
     (case raw_dur r of
        None \<Rightarrow> None
      | Some d \<Rightarrow>
          if 0 < d then
            Some \<lparr> dur = d,
                   team = or_empty (raw_team r),
                   dept = or_empty (raw_dept r),
                   remark = or_empty (raw_remark r),
                   is_cm = mask_cm (or_empty (raw_team r)) (or_empty (raw_remark r))
                             (or_empty (raw_dept r)) \<rparr>
          else None)"

text \<open>The commercial mask of a row of the sheet, on its filled cells.\<close>

definition raw_is_cm :: "raw_row \<Rightarrow> bool" where
  "raw_is_cm r = mask_cm (or_empty (raw_team r)) (or_empty (raw_remark r)) (or_empty (raw_dept r))"

text \<open>
  \<open>Series.cumsum\<close>: the running sum, each row included, here in exact numbers. The
  sum that rounds or wraps is \<open>column_cumsum\<close> below.
\<close>

fun cumsum :: "real \<Rightarrow> real list \<Rightarrow> real list" where
  "cumsum acc [] = []"
| "cumsum acc (d # ds) = (acc + d) # cumsum (acc + d) ds"

text \<open>
  The row with its offsets, from the running sum \<open>c\<close> at the row:
  \<open>start = cumsum - duration\<close>, \<open>end = start + duration\<close>, in exact numbers. The
  same two lines in the arithmetic of the column are \<open>column_offsets\<close> below.
\<close>

definition with_offsets :: "row \<Rightarrow> real \<Rightarrow> segment" where
  "with_offsets r c =
     (let s = c - dur r in
      row.extend r \<lparr> start_s = s, end_s = s + dur r,
                       is_digest = contains DIGEST (remark r) \<rparr>)"

definition process_sheet :: "raw_row list \<Rightarrow> bool \<Rightarrow> segment list" where
  "process_sheet sheet include_cm =
     (let df = List.map_filter clean_row sheet;
          df = (if \<not> include_cm then filter (\<lambda>r. \<not> is_cm r) df else df)
      in map2 with_offsets df (cumsum 0 (map dur df)))"

section \<open>One row of the chart: \<open>generate\<close>\<close>

subsection \<open>Colour of a bar\<close>

text \<open>
  \<open>fc = get_color(r[dept], r[remark])\<close>, and \<open>fc = "#9a9a9a"\<close> when the row is a
  commercial.
\<close>

definition bar_color :: "segment \<Rightarrow> string" where
  "bar_color r =
     (let fc = get_color (Some (dept r)) (Some (remark r)) in
      if is_cm r then ''#9a9a9a'' else fc)"

subsection \<open>Team merge\<close>

text \<open>
  A merged span is \<open>(team, start, end)\<close>. The loop keeps \<open>cur_team\<close>, \<open>cur_s\<close> and
  \<open>cur_e\<close>; \<open>cur_s\<close> and \<open>cur_e\<close> are read only while \<open>cur_team\<close> is not
  \<open>None\<close> and are assigned together with it, so the three variables are one optional
  triple here.
\<close>

type_synonym span = "pystr \<times> real \<times> real"

text \<open>\<open>if cur_team is not None: merged.append(...)\<close>.\<close>

definition close_run :: "span list \<Rightarrow> span option \<Rightarrow> span list" where
  "close_run merged cur = (case cur of None \<Rightarrow> merged | Some c \<Rightarrow> merged @ [c])"

definition team_step :: "segment \<Rightarrow> span list \<times> span option \<Rightarrow> span list \<times> span option" where
  "team_step r st =
     (case st of (merged, cur) \<Rightarrow>
        if is_digest r then (close_run merged cur, None)
        else if is_cm r then (close_run merged cur, None)
        else
          (case cur of
             None \<Rightarrow> (merged, Some (team r, start_s r, end_s r))
           | Some (cur_team, cur_s, cur_e) \<Rightarrow>
               if team r = cur_team then (merged, Some (cur_team, cur_s, end_s r))
               else (merged @ [(cur_team, cur_s, cur_e)], Some (team r, start_s r, end_s r))))"

text \<open>After the loop, \<open>if cur_team:\<close> is a test of truth: \<open>None\<close> and \<open>""\<close> both fail it.\<close>

definition team_finish :: "span list \<times> span option \<Rightarrow> span list" where
  "team_finish st =
     (case st of (merged, cur) \<Rightarrow>
        (case cur of
           None \<Rightarrow> merged
         | Some (cur_team, cur_s, cur_e) \<Rightarrow>
             if cur_team \<noteq> [] then merged @ [(cur_team, cur_s, cur_e)] else merged))"

definition team_merge :: "segment list \<Rightarrow> span list" where
  "team_merge df = team_finish (fold team_step df ([], None))"

subsection \<open>Digest merge\<close>

text \<open>The inner loop \<open>while j + 1 < n and is_digest(j + 1): j += 1\<close>.\<close>

function scan_digest :: "segment list \<Rightarrow> nat \<Rightarrow> nat" where
  "scan_digest df j =
     (if j + 1 < length df \<and> is_digest (df ! (j + 1)) then scan_digest df (j + 1) else j)"
  by pat_completeness auto
termination
  by (relation "measure (\<lambda>(df, j). length df - j)") auto

declare scan_digest.simps [simp del]

lemma scan_digest_ge: "j \<le> scan_digest df j"
proof (induction df j rule: scan_digest.induct)
  case (1 df j)
  show ?case
  proof (cases "j + 1 < length df \<and> is_digest (df ! (j + 1))")
    case True
    with "1" have "j + 1 \<le> scan_digest df (j + 1)" by blast
    moreover from True have "scan_digest df j = scan_digest df (j + 1)"
      by (subst scan_digest.simps) simp
    ultimately show ?thesis by simp
  next
    case False
    then have "scan_digest df j = j"
      by (subst scan_digest.simps) auto
    then show ?thesis by simp
  qed
qed

text \<open>A digest group is \<open>(start of the first, end of the last, count)\<close>.\<close>

type_synonym digest_group = "real \<times> real \<times> nat"

function digest_loop :: "segment list \<Rightarrow> nat \<Rightarrow> digest_group list \<Rightarrow> digest_group list" where
  "digest_loop df i digest_groups =
     (if i < length df then
        (if is_digest (df ! i) then
           digest_loop df (scan_digest df i + 1)
             (digest_groups @
                [(start_s (df ! i), end_s (df ! scan_digest df i), scan_digest df i - i + 1)])
         else digest_loop df (i + 1) digest_groups)
      else digest_groups)"
  by pat_completeness auto
termination
proof (relation "measure (\<lambda>(df, i, g). length df - i)")
  show "wf (measure (\<lambda>(df, i, g). length df - i))" by simp
next
  fix df :: "segment list" and i :: nat and digest_groups :: "digest_group list"
  assume "i < length df" "is_digest (df ! i)"
  moreover have "i \<le> scan_digest df i" by (rule scan_digest_ge)
  ultimately show "((df, scan_digest df i + 1,
      digest_groups @ [(start_s (df ! i), end_s (df ! scan_digest df i), scan_digest df i - i + 1)]),
      (df, i, digest_groups)) \<in> measure (\<lambda>(df, i, g). length df - i)"
    by simp
next
  fix df :: "segment list" and i :: nat and digest_groups :: "digest_group list"
  assume "i < length df"
  then show "((df, i + 1, digest_groups), (df, i, digest_groups))
      \<in> measure (\<lambda>(df, i, g). length df - i)"
    by simp
qed

declare digest_loop.simps [simp del]

definition digest_merge :: "segment list \<Rightarrow> digest_group list" where
  "digest_merge df = digest_loop df 0 []"

text \<open>
  The digest merge in the words of the specification: a digest row opens a group that
  takes the digest rows following it without a gap and records the start of the first,
  the end of the last and their number; a row that is not a digest is in no group.
\<close>

function spec_digest_groups :: "segment list \<Rightarrow> digest_group list" where
  "spec_digest_groups [] = []"
| "spec_digest_groups (r # rs) =
     (if is_digest r then
        (start_s r, end_s (last (r # takeWhile is_digest rs)), length (r # takeWhile is_digest rs))
          # spec_digest_groups (dropWhile is_digest rs)
      else spec_digest_groups rs)"
  by pat_completeness auto
termination
proof (relation "measure length")
  show "wf (measure length)" by simp
next
  fix r :: segment and rs :: "segment list"
  have "length (dropWhile is_digest rs) \<le> length rs"
    by (rule length_dropWhile_le)
  then show "(dropWhile is_digest rs, r # rs) \<in> measure length" by simp
next
  fix r :: segment and rs :: "segment list"
  show "(rs, r # rs) \<in> measure length" by simp
qed

subsection \<open>Inside or outside the bar\<close>

text \<open>
  The horizontal axis is 7200 seconds long on a figure 18 inches wide at 150 dots per
  inch. \<open>need_sec\<close> draws the label with the plotting library and reads the width of
  the drawn text in pixels (\<open>bb.width\<close>, from \<open>get_window_extent\<close>). The renderer is
  not code of this repository: what it does for the label is the argument here,
  \<open>Inr\<close> of the width when the text is drawn, \<open>Inl\<close> of the error when drawing the
  text raises, as it does for a label that it reads as invalid mathtext. The error is
  not caught: it ends \<open>generate\<close>.
\<close>

datatype render_error = RenderError

definition axis_len :: real where
  "axis_len = 7200"

definition fig_w_px :: real where
  "fig_w_px = 18 * 150"

definition sec_per_px :: real where
  "sec_per_px = axis_len / fig_w_px"

definition need_sec :: "render_error + real \<Rightarrow> render_error + real" where
  "need_sec bb =
     (case bb of Inl err \<Rightarrow> Inl err | Inr bb_width \<Rightarrow> Inr (bb_width * sec_per_px + 6))"

text \<open>A label that did not fit its bar, as the dictionary appended to \<open>row_outside\<close>.\<close>

record outside_label =
  label :: pystr
  anchor_x :: real
  pref_x :: real
  width :: real
  style :: "string option"

text \<open>A text drawn inside a bar with \<open>ax.text(xc, y0, ...)\<close>.\<close>

record inside_text =
  in_x :: real
  in_y :: real
  in_label :: pystr
  in_style :: "string option"

text \<open>
  The body of \<open>for team, s, e in merged\<close> on the texts drawn so far and on
  \<open>row_outside\<close>; \<open>bb\<close> is what the renderer does for the team's name. The body calls
  \<open>need_sec(team)\<close> for the comparison and once more for the width of the request.
\<close>

definition team_label :: "render_error + real \<Rightarrow> real \<Rightarrow> span \<Rightarrow>
    inside_text list \<times> outside_label list \<Rightarrow>
    render_error + inside_text list \<times> outside_label list" where
  "team_label bb y0 sp st =
     (case sp of (tm, s, e) \<Rightarrow>
      case st of (drawn, row_outside) \<Rightarrow>
        if blank tm then Inr (drawn, row_outside)
        else
          (let L = e - s; xc = (s + e) / 2 in
           case need_sec bb of
             Inl err \<Rightarrow> Inl err
           | Inr need \<Rightarrow>
               if L > need then
                 Inr (drawn @ [\<lparr> in_x = xc, in_y = y0, in_label = tm, in_style = None \<rparr>],
                      row_outside)
               else
                 (case need_sec bb of
                    Inl err \<Rightarrow> Inl err
                  | Inr w \<Rightarrow>
                      Inr (drawn,
                           row_outside @
                             [\<lparr> label = tm, anchor_x = xc, pref_x = e + 6,
                                width = w, style = None \<rparr>]))))"

text \<open>\<open>str(N)\<close> of a count, in decimal digits.\<close>

function decimal :: "nat \<Rightarrow> pystr" where
  "decimal n = (if n < 10 then [48 + n] else decimal (n div 10) @ [48 + n mod 10])"
  by pat_completeness auto
termination
  by (relation "measure id") auto

declare decimal.simps [simp del]

text \<open>The label of a digest group: the digest marker, \<open>": "\<close>, U+8A08, the count, U+30C1 U+30FC U+30E0.\<close>

definition digest_text :: "nat \<Rightarrow> pystr" where
  "digest_text N = DIGEST @ [58, 32, 35336] @ decimal N @ [12481, 12540, 12512]"

definition digest_label :: "render_error + real \<Rightarrow> real \<Rightarrow> digest_group \<Rightarrow>
    inside_text list \<times> outside_label list \<Rightarrow>
    render_error + inside_text list \<times> outside_label list" where
  "digest_label bb y0 g st =
     (case g of (s, e, N) \<Rightarrow>
      case st of (drawn, row_outside) \<Rightarrow>
        (let lbl = digest_text N; L = e - s; xc = (s + e) / 2 in
         case need_sec bb of
           Inl err \<Rightarrow> Inl err
         | Inr need \<Rightarrow>
             if L > need then
               Inr (drawn @ [\<lparr> in_x = xc, in_y = y0, in_label = lbl,
                                 in_style = Some ''italic'' \<rparr>],
                    row_outside)
             else
               (case need_sec bb of
                  Inl err \<Rightarrow> Inl err
                | Inr w \<Rightarrow>
                    Inr (drawn,
                         row_outside @
                           [\<lparr> label = lbl, anchor_x = xc, pref_x = e + 6,
                              width = w, style = Some ''italic'' \<rparr>]))))"

text \<open>A loop whose body may raise: the first error ends it.\<close>

fun label_loop :: "('a \<Rightarrow> 's \<Rightarrow> render_error + 's) \<Rightarrow> 'a list \<Rightarrow> 's \<Rightarrow> render_error + 's" where
  "label_loop body [] st = Inr st"
| "label_loop body (x # xs) st =
     (case body x st of Inl err \<Rightarrow> Inl err | Inr st' \<Rightarrow> label_loop body xs st')"

text \<open>
  The two loops of a row; \<open>tw\<close> is what the renderer does for each text.
\<close>

definition row_labels :: "(pystr \<Rightarrow> render_error + real) \<Rightarrow> real \<Rightarrow> span list \<Rightarrow>
    digest_group list \<Rightarrow> render_error + inside_text list \<times> outside_label list" where
  "row_labels tw y0 merged digest_groups =
     (case label_loop (\<lambda>sp. team_label (tw (fst sp)) y0 sp) merged ([], []) of
        Inl err \<Rightarrow> Inl err
      | Inr st \<Rightarrow>
          label_loop (\<lambda>g. digest_label (tw (digest_text (snd (snd g)))) y0 g) digest_groups st)"

subsection \<open>Lanes for the outside labels\<close>

definition bar_half :: real where
  "bar_half = 0.35"

definition gap :: real where
  "gap = 0.12"

definition lane_spacing :: real where
  "lane_spacing = 0.22"

definition min_gap :: real where
  "min_gap = 10"

definition left_margin :: real where
  "left_margin = 8"

definition right_margin :: real where
  "right_margin = 12"

text \<open>
  A label as drawn by \<open>ax.text(x_try, y, d["label"], ...)\<close> with its leader line:
  the request, the lane \<open>i\<close>, and the position.
\<close>

record placement =
  p_item :: outside_label
  p_lane :: nat
  p_x :: real
  p_y :: real

record band_state =
  lane_end :: "real list"
  placed :: "placement list"
  top_max_y :: real
  bottom_min_y :: real

text \<open>
  \<open>for i, endx in enumerate(lane_end)\<close> up to its \<open>break\<close>: the first lane in which
  the label fits and the position there, or \<open>None\<close> when \<open>placed\<close> stays false.
\<close>

fun try_lanes :: "real \<Rightarrow> real \<Rightarrow> real \<Rightarrow> nat \<Rightarrow> real list \<Rightarrow> (nat \<times> real) option" where
  "try_lanes x0 w xmax i [] = None"
| "try_lanes x0 w xmax i (endx # rest) =
     (let x_try = max x0 (endx + min_gap) in
      if x_try \<le> xmax - w - right_margin then Some (i, x_try)
      else try_lanes x0 w xmax (Suc i) rest)"

definition draw_label :: "real \<Rightarrow> outside_label \<Rightarrow> nat \<Rightarrow> real \<Rightarrow> real \<Rightarrow> real list \<Rightarrow>
    band_state \<Rightarrow> band_state" where
  "draw_label direction d i x_try y lanes st =
     \<lparr> lane_end = lanes,
       placed = placed st @ [\<lparr> p_item = d, p_lane = i, p_x = x_try, p_y = y \<rparr>],
       top_max_y = (if direction > 0 then max (top_max_y st) y else top_max_y st),
       bottom_min_y = (if direction > 0 then bottom_min_y st else min (bottom_min_y st) y) \<rparr>"

text \<open>The body of \<open>for d in band_items\<close>.\<close>

definition place_item :: "real \<Rightarrow> real \<Rightarrow> real \<Rightarrow> real \<Rightarrow> outside_label \<Rightarrow>
    band_state \<Rightarrow> band_state" where
  "place_item direction y_base xmin xmax d st =
     (let w = width d;
          base_y = y_base + (if direction > 0 then bar_half + gap else - (bar_half + gap));
          x0 = max (xmin + left_margin) (min (pref_x d) (xmax - w - right_margin))
      in case try_lanes x0 w xmax 0 (lane_end st) of
           Some (i, x_try) \<Rightarrow>
             draw_label direction d i x_try (base_y + direction * (real i * lane_spacing))
               ((lane_end st)[i := x_try + w]) st
         | None \<Rightarrow>
             (let i = length (lane_end st); x_try = x0 in
              draw_label direction d i x_try (base_y + direction * (real i * lane_spacing))
                (lane_end st @ [x_try + w]) st))"

text \<open>
  \<open>place_band\<close> starts with no lane and nothing placed, from the extents of the row
  so far.
\<close>

definition place_band :: "outside_label list \<Rightarrow> real \<Rightarrow> real \<Rightarrow> real \<Rightarrow> real \<Rightarrow>
    real \<times> real \<Rightarrow> band_state" where
  "place_band band_items direction y_base xmin xmax ext =
     fold (place_item direction y_base xmin xmax) band_items
       \<lparr> lane_end = [], placed = [], top_max_y = fst ext, bottom_min_y = snd ext \<rparr>"

text \<open>The labels go to the top and to the bottom in turn, by their index.\<close>

definition split_bands :: "outside_label list \<Rightarrow> outside_label list \<times> outside_label list" where
  "split_bands items =
     fold (\<lambda>(i, d) (top_items, bottom_items).
             if i mod 2 = 0 then (top_items @ [d], bottom_items)
             else (top_items, bottom_items @ [d]))
       (enumerate 0 items) ([], [])"

text \<open>
  \<open>draw_row_outside_labels\<close> returns the extents of the row; the labels it draws,
  above and then below, are returned with them.
\<close>

definition draw_row_outside_labels :: "outside_label list \<Rightarrow> real \<Rightarrow> real \<Rightarrow> real \<Rightarrow>
    placement list \<times> placement list \<times> real \<times> real" where
  "draw_row_outside_labels items y_base xmin xmax =
     (let top0 = y_base + bar_half; bottom0 = y_base - bar_half in
      if items = [] then ([], [], top0, bottom0)
      else
        (let sorted_items = sort_key anchor_x items;
             (top_items, bottom_items) = split_bands sorted_items;
             up = place_band top_items 1 y_base xmin xmax (top0, bottom0);
             down = place_band bottom_items (- 1) y_base xmin xmax
                      (top_max_y up, bottom_min_y up)
         in (placed up, placed down, top_max_y down, bottom_min_y down)))"

section \<open>Offsets in machine arithmetic\<close>

text \<open>
  \<open>process_sheet\<close> above computes in exact numbers. The duration column of the frame is
  a column of 64-bit numbers: \<open>int64\<close> when every cell of the sheet is an integer,
  \<open>float64\<close> otherwise. This section has the two lines
  \<open>start = cumsum - duration\<close> and \<open>end = start + duration\<close> in the arithmetic of the
  column.

  A \<open>float64\<close> is a datatype of its own: \<open>Finite m e\<close> is the number \<open>m \<times> 2\<^sup>e\<close>,
  with at most 53 bits in \<open>m\<close> and \<open>e\<close> from -1074 to 971; the sign of zero is not kept,
  as no comparison tells the two zeros apart.
\<close>

datatype f64 = Finite int int | PInf | NInf | NaN

text \<open>\<open>M / 2\<^sup>k\<close> rounded to the nearest integer, a tie to the even one.\<close>

definition round_even :: "int \<Rightarrow> nat \<Rightarrow> int" where
  "round_even M k =
     (let q = M div 2 ^ k; r = M mod 2 ^ k in
      if 2 ^ k < 2 * r \<or> (2 * r = 2 ^ k \<and> odd q) then q + 1 else q)"

text \<open>
  The \<open>float64\<close> nearest to \<open>M \<times> 2\<^sup>e\<close>: 53 bits are kept, and a result of
  \<open>2\<^sup>1\<^sup>0\<^sup>2\<^sup>4\<close> or more is an infinity. A sum or a difference of two \<open>float64\<close> is a
  multiple of \<open>2\<^sup>-\<^sup>1\<^sup>0\<^sup>7\<^sup>4\<close>, so that no bit is lost at the small end.
\<close>

definition f64_round :: "int \<Rightarrow> int \<Rightarrow> f64" where
  "f64_round M e =
     (let k = nat (bitlen \<bar>M\<bar> - 53); m = round_even M k in
      if 1024 < bitlen \<bar>m\<bar> + (e + int k) then (if 0 < m then PInf else NInf)
      else Finite m (e + int k))"

fun f64_add :: "f64 \<Rightarrow> f64 \<Rightarrow> f64" where
  "f64_add NaN y = NaN"
| "f64_add x NaN = NaN"
| "f64_add PInf NInf = NaN"
| "f64_add NInf PInf = NaN"
| "f64_add PInf y = PInf"
| "f64_add x PInf = PInf"
| "f64_add NInf y = NInf"
| "f64_add x NInf = NInf"
| "f64_add (Finite m1 e1) (Finite m2 e2) =
     (let e = min e1 e2 in f64_round (m1 * 2 ^ nat (e1 - e) + m2 * 2 ^ nat (e2 - e)) e)"

fun f64_neg :: "f64 \<Rightarrow> f64" where
  "f64_neg (Finite m e) = Finite (- m) e"
| "f64_neg PInf = NInf"
| "f64_neg NInf = PInf"
| "f64_neg NaN = NaN"

definition f64_sub :: "f64 \<Rightarrow> f64 \<Rightarrow> f64" where
  "f64_sub x y = f64_add x (f64_neg y)"

text \<open>Python's \<open>==\<close> on two floats.\<close>

fun f64_eq :: "f64 \<Rightarrow> f64 \<Rightarrow> bool" where
  "f64_eq (Finite m1 e1) (Finite m2 e2) =
     (let e = min e1 e2 in m1 * 2 ^ nat (e1 - e) = m2 * 2 ^ nat (e2 - e))"
| "f64_eq PInf PInf = True"
| "f64_eq NInf NInf = True"
| "f64_eq x y = False"

text \<open>The \<open>float64\<close> of a whole number below \<open>2\<^sup>5\<^sup>3\<close> in size.\<close>

definition f64_of_int :: "int \<Rightarrow> f64" where
  "f64_of_int n = Finite n 0"

text \<open>
  \<open>Series.cumsum\<close> on a column without NaN: the first value, then each value added to
  the sum so far, in the addition of the column.
\<close>

fun running :: "('a \<Rightarrow> 'a \<Rightarrow> 'a) \<Rightarrow> 'a \<Rightarrow> 'a list \<Rightarrow> 'a list" where
  "running add acc [] = []"
| "running add acc (d # ds) = add acc d # running add (add acc d) ds"

definition column_cumsum :: "('a \<Rightarrow> 'a \<Rightarrow> 'a) \<Rightarrow> 'a list \<Rightarrow> 'a list" where
  "column_cumsum add durs = (case durs of [] \<Rightarrow> [] | d # ds \<Rightarrow> d # running add d ds)"

text \<open>
  The columns \<open>start\<close> and \<open>end\<close> of the duration column \<open>durs\<close>, row by row, as
  lines 138 and 139 of \<open>main.py\<close> compute them.
\<close>

definition column_offsets :: "('a \<Rightarrow> 'a \<Rightarrow> 'a) \<Rightarrow> ('a \<Rightarrow> 'a \<Rightarrow> 'a) \<Rightarrow> 'a list \<Rightarrow> ('a \<times> 'a) list" where
  "column_offsets add sub durs =
     (let start = map2 sub (column_cumsum add durs) durs;
          end' = map2 add start durs
      in zip start end')"

definition offsets_f64 :: "f64 list \<Rightarrow> (f64 \<times> f64) list" where
  "offsets_f64 = column_offsets f64_add f64_sub"

text \<open>An \<open>int64\<close> column: the sum and the difference wrap around.\<close>

definition offsets_i64 :: "64 word list \<Rightarrow> (64 word \<times> 64 word) list" where
  "offsets_i64 = column_offsets (+) (-)"

text \<open>The durations 0.1, 0.2 and 0.3 as the \<open>float64\<close> nearest to each.\<close>

definition tenths :: "f64 list" where
  "tenths = [Finite 3602879701896397 (- 55), Finite 3602879701896397 (- 54),
             Finite 5404319552844595 (- 54)]"

text \<open>
  The durations 3600 and three times \<open>1e-13\<close> as \<open>float64\<close>: the running sum stays
  at 3600.
\<close>

definition absorbed :: "f64 list" where
  "absorbed = [Finite 3600 0, Finite 3961408125713217 (- 95), Finite 3961408125713217 (- 95),
               Finite 3961408125713217 (- 95)]"

text \<open>Three durations of \<open>2\<^sup>6\<^sup>2\<close> in an \<open>int64\<close> column: the running sum wraps.\<close>

definition wrapping :: "64 word list" where
  "wrapping = [4611686018427387904, 4611686018427387904, 4611686018427387904]"

section \<open>Sample sheets\<close>

text \<open>A spreadsheet row with its four cells filled.\<close>

definition sheet_row :: "real \<Rightarrow> pystr \<Rightarrow> pystr \<Rightarrow> pystr \<Rightarrow> raw_row" where
  "sheet_row d tm dp rm =
     \<lparr> raw_dur = Some d, raw_team = Some tm, raw_dept = Some dp, raw_remark = Some rm \<rparr>"

text \<open>Two rows of team A and a commercial of 100 seconds.\<close>

definition commercial_sheet :: "raw_row list" where
  "commercial_sheet =
     [sheet_row 600 (ascii ''A'') [] [], sheet_row 300 (ascii ''A'') [] [],
      sheet_row 100 (ascii ''B'') [] CM]"

text \<open>A first row of 1000 seconds and three digest rows of 50 seconds, of three teams.\<close>

definition digest_sheet :: "raw_row list" where
  "digest_sheet =
     [sheet_row 1000 (ascii ''X'') [] [], sheet_row 50 (ascii ''P'') [] DIGEST,
      sheet_row 50 (ascii ''Q'') [] DIGEST, sheet_row 50 (ascii ''R'') [] DIGEST]"

text \<open>
  Four rows of the teams X, A, B and A with the durations 3600, \<open>1e-13\<close>, \<open>1e-13\<close>
  and \<open>1e-13\<close>, at the offsets of a \<open>float64\<close> column (\<open>absorbed\<close> above): the last
  three rows start and end at 3600.
\<close>

definition absorbed_rows :: "segment list" where
  "absorbed_rows =
     map (\<lambda>(tm, d, s, e).
            \<lparr> dur = d, team = tm, dept = [], remark = [], is_cm = False,
              start_s = s, end_s = e, is_digest = False \<rparr>)
       [(ascii ''X'', 3600, 0, 3600),
        (ascii ''A'', 3961408125713217 / 2 ^ 95, 3600, 3600),
        (ascii ''B'', 3961408125713217 / 2 ^ 95, 3600, 3600),
        (ascii ''A'', 3961408125713217 / 2 ^ 95, 3600, 3600)]"

text \<open>A label with no room to its right on an axis of 7200 seconds.\<close>

definition wide_label :: outside_label where
  "wide_label = \<lparr> label = ascii ''A'', anchor_x = 7190, pref_x = 7196, width = 100, style = None \<rparr>"

text \<open>Two labels near the start of the axis and one near its end.\<close>

definition three_labels :: "outside_label list" where
  "three_labels =
     [\<lparr> label = ascii ''A'', anchor_x = 100, pref_x = 106, width = 50, style = None \<rparr>,
      \<lparr> label = ascii ''B'', anchor_x = 110, pref_x = 116, width = 50, style = None \<rparr>,
      wide_label]"

section \<open>Invariant of the lanes\<close>

text \<open>
  \<open>clear_of p q\<close>: if \<open>p\<close> and \<open>q\<close> are in one lane, \<open>q\<close> starts at least the minimum
  gap after the right edge of \<open>p\<close>.
\<close>

definition clear_of :: "placement \<Rightarrow> placement \<Rightarrow> bool" where
  "clear_of p q = (p_lane p = p_lane q \<longrightarrow> p_x p + width (p_item p) + min_gap \<le> p_x q)"

text \<open>
  While a band is filled, each placed label is clear of the labels placed after it, is
  in a lane that exists, and ends no further right than \<open>lane_end\<close> of its lane.
\<close>

definition lanes_inv :: "band_state \<Rightarrow> bool" where
  "lanes_inv st =
     (sorted_wrt clear_of (placed st)
      \<and> (\<forall>p\<in>set (placed st).
            p_lane p < length (lane_end st)
            \<and> p_x p + width (p_item p) \<le> lane_end st ! p_lane p))"

lemmas eval_sheet = process_sheet_def clean_row_def mask_cm_def
  or_empty_def CM_def DIGEST_def with_offsets_def row.defs segment.defs Let_def ascii_def
  sheet_row_def

section \<open>Offsets\<close>

lemma length_cumsum: "length (cumsum a ds) = length ds"
  by (induction ds arbitrary: a) auto

lemma cumsum_nth: "i < length ds \<Longrightarrow> cumsum a ds ! i = a + sum_list (take (Suc i) ds)"
proof (induction ds arbitrary: a i)
  case Nil
  then show ?case by simp
next
  case (Cons d ds)
  show ?case
  proof (cases i)
    case 0
    then show ?thesis by simp
  next
    case (Suc k)
    with Cons.prems have "k < length ds" by simp
    from Cons.IH [OF this, of "a + d"] Suc show ?thesis by simp
  qed
qed

lemma nth_offsets:
  "i < length df \<Longrightarrow>
   map2 with_offsets df (cumsum a (map dur df)) ! i
     = with_offsets (df ! i) (a + sum_list (map dur (take (Suc i) df)))"
  by (simp add: length_cumsum cumsum_nth take_map)

lemma dur_with_offsets [simp]: "dur (with_offsets r c) = dur r"
  by (simp add: with_offsets_def row.defs Let_def)

lemma start_with_offsets [simp]: "start_s (with_offsets r c) = c - dur r"
  by (simp add: with_offsets_def row.defs Let_def)

lemma end_with_offsets [simp]: "end_s (with_offsets r c) = c"
  by (simp add: with_offsets_def row.defs Let_def)

lemma length_offsets [simp]: "length (map2 with_offsets df (cumsum a (map dur df))) = length df"
  by (simp add: length_cumsum)

lemma map_dur_offsets: "map dur (map2 with_offsets df (cumsum a (map dur df))) = map dur df"
  by (rule nth_equalityI) (simp_all add: length_cumsum)

lemma start_offsets:
  assumes "i < length df"
  shows "start_s (map2 with_offsets df (cumsum a (map dur df)) ! i)
           = a + sum_list (map dur (take i df))"
proof -
  have "sum_list (map dur (take (Suc i) df)) = sum_list (map dur (take i df)) + dur (df ! i)"
    using assms by (simp add: take_Suc_conv_app_nth)
  then show ?thesis using assms by (simp add: nth_offsets)
qed

lemma end_offsets:
  assumes "i < length df"
  shows "end_s (map2 with_offsets df (cumsum a (map dur df)) ! i)
           = a + sum_list (map dur (take (Suc i) df))"
  using assms by (simp add: nth_offsets)

section \<open>Offsets: exact and machine arithmetic\<close>

lemma running_nth:
  fixes acc :: "'a::ab_group_add"
  shows "i < length ds \<Longrightarrow> running (+) acc ds ! i = acc + sum_list (take (Suc i) ds)"
proof (induction ds arbitrary: acc i)
  case Nil
  then show ?case by simp
next
  case (Cons d ds)
  show ?case
  proof (cases i)
    case 0
    then show ?thesis by simp
  next
    case (Suc k)
    with Cons.prems have "k < length ds" by simp
    from Cons.IH [OF this, of "acc + d"] Suc show ?thesis by (simp add: add.assoc)
  qed
qed

lemma length_running [simp]: "length (running add acc ds) = length ds"
  by (induction ds arbitrary: acc) simp_all

lemma length_column_cumsum [simp]: "length (column_cumsum add ds) = length ds"
  by (simp add: column_cumsum_def split: list.splits)

lemma column_cumsum_nth:
  fixes ds :: "'a::ab_group_add list"
  assumes "i < length ds"
  shows "column_cumsum (+) ds ! i = sum_list (take (Suc i) ds)"
proof (cases ds)
  case Nil
  with assms show ?thesis by simp
next
  case (Cons d ds')
  show ?thesis
  proof (cases i)
    case 0
    then show ?thesis by (simp add: Cons column_cumsum_def)
  next
    case (Suc k)
    with assms Cons have "k < length ds'" by simp
    from running_nth [OF this, of d] Suc show ?thesis by (simp add: Cons column_cumsum_def)
  qed
qed

lemma length_column_offsets [simp]: "length (column_offsets add sub ds) = length ds"
  by (simp add: column_offsets_def Let_def)

text \<open>In a ring, exact or wrapping, the offsets are the sums of the durations before.\<close>

lemma column_offsets_nth:
  fixes ds :: "'a::ab_group_add list"
  assumes "i < length ds"
  shows "column_offsets (+) (-) ds ! i = (sum_list (take i ds), sum_list (take (Suc i) ds))"
proof -
  have "sum_list (take (Suc i) ds) = sum_list (take i ds) + ds ! i"
    using assms by (simp add: take_Suc_conv_app_nth)
  with assms show ?thesis
    by (simp add: column_offsets_def Let_def column_cumsum_nth)
qed

text \<open>The frame of \<open>process_sheet\<close> has these offsets, in exact numbers.\<close>

lemma process_sheet_column_offsets:
  "map (\<lambda>s. (start_s s, end_s s)) (process_sheet sheet include_cm)
     = column_offsets (+) (-) (map dur (process_sheet sheet include_cm))"
proof -
  obtain df where segs: "process_sheet sheet include_cm
      = map2 with_offsets df (cumsum 0 (map dur df))"
    by (simp add: process_sheet_def Let_def)
  define S where "S = map2 with_offsets df (cumsum 0 (map dur df))"
  have len: "length S = length df"
    unfolding S_def by (rule length_offsets)
  have durs: "map dur S = map dur df"
    unfolding S_def by (rule map_dur_offsets)
  have st: "start_s (S ! i) = sum_list (take i (map dur df))" if "i < length df" for i
    unfolding S_def using start_offsets [OF that, of 0] by (simp add: take_map)
  have en: "end_s (S ! i) = sum_list (take (Suc i) (map dur df))" if "i < length df" for i
    unfolding S_def using end_offsets [OF that, of 0] by (simp add: take_map)
  have "map (\<lambda>s. (start_s s, end_s s)) S = column_offsets (+) (-) (map dur S)"
  proof (rule nth_equalityI)
    show "length (map (\<lambda>s. (start_s s, end_s s)) S) = length (column_offsets (+) (-) (map dur S))"
      by simp
  next
    fix i assume "i < length (map (\<lambda>s. (start_s s, end_s s)) S)"
    then have i: "i < length df" by (simp add: len)
    then have "column_offsets (+) (-) (map dur df) ! i
        = (sum_list (take i (map dur df)), sum_list (take (Suc i) (map dur df)))"
      by (simp add: column_offsets_nth)
    with i show "map (\<lambda>s. (start_s s, end_s s)) S ! i = column_offsets (+) (-) (map dur S) ! i"
      by (simp add: durs len st en)
  qed
  then show ?thesis by (simp only: segs S_def)
qed

text \<open>Whole numbers below \<open>2\<^sup>5\<^sup>3\<close> are added and subtracted without rounding.\<close>

lemma round_even_0 [simp]: "round_even M 0 = M"
  by (simp add: round_even_def)

lemma f64_round_small:
  assumes "\<bar>M\<bar> < 2 ^ 53"
  shows "f64_round M 0 = Finite M 0"
proof -
  have "bitlen \<bar>M\<bar> \<le> 53"
    using assms by (simp add: bitlen_le_iff_power)
  then show ?thesis by (simp add: f64_round_def Let_def)
qed

lemma f64_add_whole:
  "\<bar>a + b\<bar> < 2 ^ 53 \<Longrightarrow> f64_add (f64_of_int a) (f64_of_int b) = f64_of_int (a + b)"
  by (simp add: f64_of_int_def f64_round_small)

lemma f64_sub_whole:
  "\<bar>a - b\<bar> < 2 ^ 53 \<Longrightarrow> f64_sub (f64_of_int a) (f64_of_int b) = f64_of_int (a - b)"
  by (simp add: f64_of_int_def f64_sub_def f64_round_small)

lemma running_whole:
  assumes "0 \<le> acc" and "\<forall>n\<in>set ds. 0 < n" and "acc + sum_list ds < 2 ^ 53"
  shows "running f64_add (f64_of_int acc) (map f64_of_int ds) = map f64_of_int (running (+) acc ds)"
  using assms
proof (induction ds arbitrary: acc)
  case Nil
  then show ?case by simp
next
  case (Cons d ds)
  then have d: "0 < d" and ds: "\<forall>n\<in>set ds. 0 < n" by simp_all
  from ds have "0 \<le> sum_list ds" by (simp add: sum_list_nonneg less_imp_le)
  with Cons.prems(1,3) d have "\<bar>acc + d\<bar> < 2 ^ 53" by simp
  then have a: "f64_add (f64_of_int acc) (f64_of_int d) = f64_of_int (acc + d)"
    by (rule f64_add_whole)
  from Cons.prems(1,3) d have "0 \<le> acc + d" "acc + d + sum_list ds < 2 ^ 53"
    by (simp_all add: add.assoc)
  from Cons.IH [OF this(1) ds this(2)] a show ?case by simp
qed

lemma running_bounds:
  fixes acc :: int
  assumes "0 \<le> acc" and "\<forall>n\<in>set ds. 0 < n"
  shows "\<forall>(c, n)\<in>set (zip (running (+) acc ds) ds). n \<le> c \<and> c \<le> acc + sum_list ds"
  using assms
proof (induction ds arbitrary: acc)
  case Nil
  then show ?case by simp
next
  case (Cons d ds)
  then have d: "0 < d" and ds: "\<forall>n\<in>set ds. 0 < n" by simp_all
  from ds have s: "0 \<le> sum_list ds" by (simp add: sum_list_nonneg less_imp_le)
  from Cons.prems(1) d have "0 \<le> acc + d" by simp
  from Cons.IH [OF this ds] Cons.prems(1) d s show ?case
    by (auto simp: add.assoc)
qed

lemma column_cumsum_bounds:
  fixes ns :: "int list"
  assumes "\<forall>n\<in>set ns. 0 < n"
  shows "\<forall>(c, n)\<in>set (zip (column_cumsum (+) ns) ns). n \<le> c \<and> c \<le> sum_list ns"
proof (cases ns)
  case Nil
  then show ?thesis by (simp add: column_cumsum_def)
next
  case (Cons d ds)
  with assms have d: "0 < d" and ds: "\<forall>n\<in>set ds. 0 < n" by simp_all
  from ds have s: "0 \<le> sum_list ds" by (simp add: sum_list_nonneg less_imp_le)
  from d have "0 \<le> d" by simp
  from running_bounds [OF this ds] s d show ?thesis
    by (auto simp: Cons column_cumsum_def)
qed

lemma column_cumsum_whole:
  assumes "\<forall>n\<in>set ns. 0 < n" and "sum_list ns < 2 ^ 53"
  shows "column_cumsum f64_add (map f64_of_int ns) = map f64_of_int (column_cumsum (+) ns)"
proof (cases ns)
  case Nil
  then show ?thesis by (simp add: column_cumsum_def)
next
  case (Cons d ds)
  with assms have d: "0 \<le> d" and ds: "\<forall>n\<in>set ds. 0 < n" and s: "d + sum_list ds < 2 ^ 53"
    by (simp_all add: less_imp_le)
  from running_whole [OF d ds s] show ?thesis
    by (simp add: Cons column_cumsum_def)
qed

lemma map2_sub_whole:
  assumes "length cs = length ns" and "\<forall>(c, n)\<in>set (zip cs ns). 0 < n \<and> n \<le> c \<and> c < 2 ^ 53"
  shows "map2 f64_sub (map f64_of_int cs) (map f64_of_int ns) = map f64_of_int (map2 (-) cs ns)"
  using assms
proof (induction cs ns rule: list_induct2)
  case Nil
  then show ?case by simp
next
  case (Cons c cs n ns)
  then have "\<bar>c - n\<bar> < 2 ^ 53" by simp
  from f64_sub_whole [OF this] Cons show ?case by simp
qed

lemma map2_add_whole:
  assumes "length cs = length ns" and "\<forall>(c, n)\<in>set (zip cs ns). 0 < n \<and> n \<le> c \<and> c < 2 ^ 53"
  shows "map2 f64_add (map f64_of_int (map2 (-) cs ns)) (map f64_of_int ns)
           = map f64_of_int (map2 (+) (map2 (-) cs ns) ns)"
  using assms
proof (induction cs ns rule: list_induct2)
  case Nil
  then show ?case by simp
next
  case (Cons c cs n ns)
  then have "\<bar>c - n + n\<bar> < 2 ^ 53" by simp
  from f64_add_whole [OF this] Cons show ?case by simp
qed

lemma offsets_f64_whole:
  assumes "\<forall>n\<in>set ns. 0 < n" and "sum_list ns < 2 ^ 53"
  shows "offsets_f64 (map f64_of_int ns)
           = map (\<lambda>(s, e). (f64_of_int s, f64_of_int e)) (column_offsets (+) (-) ns)"
proof -
  have b: "\<forall>(c, n)\<in>set (zip (column_cumsum (+) ns) ns). 0 < n \<and> n \<le> c \<and> c < 2 ^ 53"
  proof -
    have "0 < n \<and> n \<le> c \<and> c < 2 ^ 53" if "(c, n) \<in> set (zip (column_cumsum (+) ns) ns)" for c n
    proof -
      from that have "n \<in> set ns" by (rule set_zip_rightD)
      with assms(1) have "0 < n" by blast
      moreover from column_cumsum_bounds [OF assms(1)] that have "n \<le> c \<and> c \<le> sum_list ns"
        by blast
      ultimately show ?thesis using assms(2) by simp
    qed
    then show ?thesis by blast
  qed
  have l: "length (column_cumsum (+) ns) = length ns" by simp
  define A where "A = map2 (-) (column_cumsum (+) ns) ns"
  define B where "B = map2 (+) A ns"
  have "offsets_f64 (map f64_of_int ns) = zip (map f64_of_int A) (map f64_of_int B)"
    unfolding offsets_f64_def column_offsets_def Let_def A_def B_def
    by (simp only: column_cumsum_whole [OF assms] map2_sub_whole [OF l b] map2_add_whole [OF l b])
  also have "\<dots> = map (\<lambda>(s, e). (f64_of_int s, f64_of_int e)) (zip A B)"
    by (rule zip_map_map)
  also have "zip A B = column_offsets (+) (-) ns"
    by (simp only: column_offsets_def Let_def A_def B_def)
  finally show ?thesis .
qed

lemma offsets_i64_whole:
  "offsets_i64 (map word_of_int ns)
     = map (\<lambda>(s, e). (word_of_int s, word_of_int e)) (column_offsets (+) (-) ns)"
proof (rule nth_equalityI)
  show "length (offsets_i64 (map word_of_int ns))
      = length (map (\<lambda>(s, e). (word_of_int s, word_of_int e)) (column_offsets (+) (-) ns))"
    by (simp add: offsets_i64_def)
next
  fix i assume "i < length (offsets_i64 (map word_of_int ns))"
  then have i: "i < length ns" by (simp add: offsets_i64_def)
  have "sum_list (map word_of_int xs) = (word_of_int (sum_list xs) :: 64 word)" for xs
    by (induction xs) simp_all
  then have "sum_list (take j (map word_of_int ns)) = (word_of_int (sum_list (take j ns)) :: 64 word)"
    for j
    by (simp only: take_map)
  with i show "offsets_i64 (map word_of_int ns) ! i
      = map (\<lambda>(s, e). (word_of_int s, word_of_int e)) (column_offsets (+) (-) ns) ! i"
    by (simp add: offsets_i64_def column_offsets_nth)
qed

text \<open>
  In every column the end of a row is its start plus its duration, as computed, and the
  first row starts at its duration minus itself.
\<close>

lemma column_offsets_end:
  "k < length ds \<Longrightarrow>
     snd (column_offsets add sub ds ! k) = add (fst (column_offsets add sub ds ! k)) (ds ! k)"
  by (simp add: column_offsets_def Let_def)

lemma column_offsets_first:
  "ds \<noteq> [] \<Longrightarrow> fst (column_offsets add sub ds ! 0) = sub (ds ! 0) (ds ! 0)"
  by (cases ds) (simp_all add: column_offsets_def Let_def column_cumsum_def)

lemma f64_sub_self:
  assumes "e \<le> 971"
  shows "f64_eq (f64_sub (Finite m e) (Finite m e)) (f64_of_int 0)"
proof -
  have "f64_round 0 e = Finite 0 e"
    using assms by (simp add: f64_round_def Let_def)
  then show ?thesis by (simp add: f64_sub_def f64_of_int_def)
qed

text \<open>
  The durations 3600, \<open>1e-13\<close>, \<open>1e-13\<close> and \<open>1e-13\<close> in \<open>float64\<close>: the three short
  rows start and end at 3600, which is \<open>7916483719987200 \<times> 2\<^sup>-\<^sup>4\<^sup>1\<close>.
\<close>

lemma offsets_f64_absorbed:
  "offsets_f64 absorbed
     = [(Finite 0 0, Finite 3600 0),
        (Finite 7916483719987200 (- 41), Finite 7916483719987200 (- 41)),
        (Finite 7916483719987200 (- 41), Finite 7916483719987200 (- 41)),
        (Finite 7916483719987200 (- 41), Finite 7916483719987200 (- 41))]"
proof -
  have b: "bitlen 142610692525675811629787236318017 = 107"
    "bitlen 142610692525675803706970984891583 = 107"
    "bitlen 7916483719987200 = 53" "bitlen 3600 = 12"
    by (simp_all add: compute_bitlen)
  have r: "f64_round 142610692525675811629787236318017 (- 95) = Finite 7916483719987200 (- 41)"
    "f64_round 142610692525675803706970984891583 (- 95) = Finite 7916483719987200 (- 41)"
    "f64_round 0 0 = Finite 0 0"
    "f64_round 3600 0 = Finite 3600 0"
    by (simp_all add: f64_round_def round_even_def Let_def b)
  show ?thesis
    by (simp add: offsets_f64_def column_offsets_def column_cumsum_def absorbed_def Let_def
        f64_sub_def r)
qed

text \<open>
  As C1 states it, every row starts exactly where the row before it ends. With the
  durations 0.1, 0.2 and 0.3 in \<open>float64\<close> the running sum at the second row is
  0.30000000000000004, so the second row starts at 0.10000000000000003, and the first
  row ends at 0.1.
\<close>

theorem offsets_tenths_counterexample:
  "fst (offsets_f64 tenths ! 1) = Finite 1801439850948199 (- 54)
   \<and> snd (offsets_f64 tenths ! 0) = Finite 3602879701896397 (- 55)
   \<and> \<not> f64_eq (fst (offsets_f64 tenths ! 1)) (snd (offsets_f64 tenths ! 0))"
proof -
  have b: "bitlen 3602879701896397 = 52" "bitlen 10808639105689191 = 54"
    "bitlen 5404319552844596 = 53" "bitlen 1801439850948199 = 51"
    by (simp_all add: compute_bitlen)
  have r: "f64_round 10808639105689191 (- 55) = Finite 5404319552844596 (- 54)"
    "f64_round 0 (- 55) = Finite 0 (- 55)"
    "f64_round 3602879701896397 (- 55) = Finite 3602879701896397 (- 55)"
    "f64_round 1801439850948199 (- 54) = Finite 1801439850948199 (- 54)"
    by (simp_all add: f64_round_def round_even_def Let_def b)
  have "fst (offsets_f64 tenths ! 1) = Finite 1801439850948199 (- 54)"
    and "snd (offsets_f64 tenths ! 0) = Finite 3602879701896397 (- 55)"
    by (simp_all add: offsets_f64_def column_offsets_def column_cumsum_def tenths_def Let_def
        f64_sub_def r)
  then show ?thesis by simp
qed

text \<open>
  C1, amended. In a \<open>float64\<close> column \<open>ds\<close> and in an \<open>int64\<close> column \<open>ws\<close> the end
  of a row is its start plus its duration, in the arithmetic of the column, and the
  first row starts at 0 (in \<open>float64\<close>: when its duration is finite). In an \<open>int64\<close>
  column every later row starts exactly where the row before it ends, and the start of
  a row is the sum of the durations of the rows before it, modulo \<open>2\<^sup>6\<^sup>4\<close>. In a
  \<open>float64\<close> column the same two hold when every duration is a whole number of seconds
  and the durations \<open>ns\<close> add up to less than \<open>2\<^sup>5\<^sup>3\<close>; with other durations the two
  sides can differ by the rounding of the sums, as they do for 0.1, 0.2 and 0.3.
\<close>

theorem offsets_contiguous_whole_seconds:
  assumes "\<forall>n\<in>set ns. 0 < n" and "sum_list ns < 2 ^ 53" and "i < length ns"
    and "j < length ws" and "k < length ds" and "ds ! 0 = Finite m e" and "e \<le> 971"
  shows "fst (offsets_f64 (map f64_of_int ns) ! 0) = f64_of_int 0
       \<and> (0 < i \<longrightarrow> fst (offsets_f64 (map f64_of_int ns) ! i)
                     = snd (offsets_f64 (map f64_of_int ns) ! (i - 1)))
       \<and> fst (offsets_f64 (map f64_of_int ns) ! i) = f64_of_int (sum_list (take i ns))
       \<and> snd (offsets_f64 (map f64_of_int ns) ! i) = f64_of_int (sum_list (take i ns) + ns ! i)
       \<and> fst (offsets_i64 ws ! 0) = 0
       \<and> (0 < j \<longrightarrow> fst (offsets_i64 ws ! j) = snd (offsets_i64 ws ! (j - 1)))
       \<and> fst (offsets_i64 ws ! j) = sum_list (take j ws)
       \<and> snd (offsets_i64 ws ! j) = fst (offsets_i64 ws ! j) + ws ! j
       \<and> f64_eq (fst (offsets_f64 ds ! 0)) (f64_of_int 0)
       \<and> snd (offsets_f64 ds ! k) = f64_add (fst (offsets_f64 ds ! k)) (ds ! k)"
proof -
  from assms(3) have z: "0 < length ns" by linarith
  have nth: "column_offsets (+) (-) ns ! l = (sum_list (take l ns), sum_list (take (Suc l) ns))"
    if "l < length ns" for l
    using that by (rule column_offsets_nth)
  have suc: "sum_list (take (Suc i) ns) = sum_list (take i ns) + ns ! i"
    using assms(3) by (simp add: take_Suc_conv_app_nth)
  have prev: "sum_list (take (Suc (i - 1)) ns) = sum_list (take i ns)" "i - 1 < length ns"
    if "0 < i"
    using that assms(3) by simp_all
  have f: "offsets_f64 (map f64_of_int ns) ! l
      = (f64_of_int (sum_list (take l ns)), f64_of_int (sum_list (take (Suc l) ns)))"
    if "l < length ns" for l
    using that by (simp add: offsets_f64_whole [OF assms(1,2)] nth)
  have whole: "fst (offsets_f64 (map f64_of_int ns) ! 0) = f64_of_int 0
       \<and> (0 < i \<longrightarrow> fst (offsets_f64 (map f64_of_int ns) ! i)
                     = snd (offsets_f64 (map f64_of_int ns) ! (i - 1)))
       \<and> fst (offsets_f64 (map f64_of_int ns) ! i) = f64_of_int (sum_list (take i ns))
       \<and> snd (offsets_f64 (map f64_of_int ns) ! i) = f64_of_int (sum_list (take i ns) + ns ! i)"
    using f [OF z] f [OF assms(3)] prev f
    by (auto simp: suc)
  from assms(4) have zw: "0 < length ws" by linarith
  have w: "offsets_i64 ws ! l = (sum_list (take l ws), sum_list (take (Suc l) ws))"
    if "l < length ws" for l
    unfolding offsets_i64_def using that by (rule column_offsets_nth)
  have sucw: "sum_list (take (Suc j) ws) = sum_list (take j ws) + ws ! j"
    using assms(4) by (simp add: take_Suc_conv_app_nth)
  have prevw: "sum_list (take (Suc (j - 1)) ws) = sum_list (take j ws)" "j - 1 < length ws"
    if "0 < j"
    using that assms(4) by simp_all
  have words: "fst (offsets_i64 ws ! 0) = 0
       \<and> (0 < j \<longrightarrow> fst (offsets_i64 ws ! j) = snd (offsets_i64 ws ! (j - 1)))
       \<and> fst (offsets_i64 ws ! j) = sum_list (take j ws)
       \<and> snd (offsets_i64 ws ! j) = fst (offsets_i64 ws ! j) + ws ! j"
    using w [OF zw] w [OF assms(4)] prevw w
    by (auto simp: sucw)
  from assms(5) have "ds \<noteq> []" by auto
  then have "fst (offsets_f64 ds ! 0) = f64_sub (ds ! 0) (ds ! 0)"
    unfolding offsets_f64_def by (rule column_offsets_first)
  with f64_sub_self [OF assms(7), of m] assms(6)
  have first: "f64_eq (fst (offsets_f64 ds ! 0)) (f64_of_int 0)"
    by simp
  have last: "snd (offsets_f64 ds ! k) = f64_add (fst (offsets_f64 ds ! k)) (ds ! k)"
    unfolding offsets_f64_def using assms(5) by (rule column_offsets_end)
  from whole words first last show ?thesis by blast
qed

theorem offsets_contiguous_whole_seconds_witness:
  "(0::int) < 600 \<and> (0::int) < 300 \<and> (0::int) < 100 \<and> sum_list [600, 300, 100] < (2::int) ^ 53
   \<and> tenths ! 0 = Finite 3602879701896397 (- 55) \<and> (- 55 :: int) \<le> 971
   \<and> fst (offsets_f64 (map f64_of_int [600, 300, 100]) ! 0) = f64_of_int 0
   \<and> fst (offsets_f64 (map f64_of_int [600, 300, 100]) ! 2)
       = snd (offsets_f64 (map f64_of_int [600, 300, 100]) ! 1)
   \<and> fst (offsets_f64 (map f64_of_int [600, 300, 100]) ! 2) = f64_of_int 900
   \<and> snd (offsets_f64 (map f64_of_int [600, 300, 100]) ! 2) = f64_of_int 1000
   \<and> fst (offsets_i64 wrapping ! 0) = 0
   \<and> fst (offsets_i64 wrapping ! 2) = snd (offsets_i64 wrapping ! 1)
   \<and> fst (offsets_i64 wrapping ! 2) = 9223372036854775808
   \<and> snd (offsets_i64 wrapping ! 2) = fst (offsets_i64 wrapping ! 2) + wrapping ! 2
   \<and> f64_eq (fst (offsets_f64 tenths ! 0)) (f64_of_int 0)
   \<and> snd (offsets_f64 tenths ! 2) = f64_add (fst (offsets_f64 tenths ! 2)) (tenths ! 2)"
proof -
  have pos: "(0::int) < 600" "(0::int) < 300" "(0::int) < 100" by simp_all
  have p: "\<forall>n\<in>set [600, 300, 100::int]. 0 < n" by simp
  have s: "sum_list [600, 300, 100] < (2::int) ^ 53" by simp
  have i: "2 < length [600, 300, 100::int]" by simp
  have j: "2 < length wrapping" and k: "2 < length tenths"
    and d: "tenths ! 0 = Finite 3602879701896397 (- 55)"
    by (simp_all add: wrapping_def tenths_def)
  have e: "(- 55 :: int) \<le> 971" by simp
  have t: "sum_list (take 2 [600, 300, 100::int]) = 900" "[600, 300, 100::int] ! 2 = 100"
    "(2::nat) - 1 = 1" "(0::nat) < 2" "(900::int) + 100 = 1000"
    "sum_list (take 2 wrapping) = 9223372036854775808"
    by (simp_all add: numeral_2_eq_2 wrapping_def)
  have "fst (offsets_f64 (map f64_of_int [600, 300, 100]) ! 0) = f64_of_int 0
   \<and> fst (offsets_f64 (map f64_of_int [600, 300, 100]) ! 2)
       = snd (offsets_f64 (map f64_of_int [600, 300, 100]) ! 1)
   \<and> fst (offsets_f64 (map f64_of_int [600, 300, 100]) ! 2) = f64_of_int 900
   \<and> snd (offsets_f64 (map f64_of_int [600, 300, 100]) ! 2) = f64_of_int 1000
   \<and> fst (offsets_i64 wrapping ! 0) = 0
   \<and> fst (offsets_i64 wrapping ! 2) = snd (offsets_i64 wrapping ! 1)
   \<and> fst (offsets_i64 wrapping ! 2) = 9223372036854775808
   \<and> snd (offsets_i64 wrapping ! 2) = fst (offsets_i64 wrapping ! 2) + wrapping ! 2
   \<and> f64_eq (fst (offsets_f64 tenths ! 0)) (f64_of_int 0)
   \<and> snd (offsets_f64 tenths ! 2) = f64_add (fst (offsets_f64 tenths ! 2)) (tenths ! 2)"
    using offsets_contiguous_whole_seconds [OF p s i j k d e] t(4)
    unfolding t(1,2,3,5,6) by blast
  with pos s d e show ?thesis by blast
qed

section \<open>Colours\<close>

text \<open>
  C7. The colour of a bar is a function of the department, the remark and the commercial
  flag of its row: a commercial is \<open>#9a9a9a\<close>, whatever its department and remark;
  otherwise a department with the human-powered marker gives \<open>#2fa0fc\<close> when the
  remark has the VTR marker and \<open>#b3e9f8\<close> when not, a department with the glider
  marker gives \<open>#00d65b\<close> with VTR and \<open>#cbf266\<close> without, and any other
  department gives \<open>#c8c8cb\<close>. The grey of a commercial is none of the other five.
\<close>

theorem bar_color_table:
  "bar_color r =
     (if is_cm r then ''#9a9a9a''
      else if contains JINRIKI (dept r) then
        (if contains VTR (remark r) then ''#2fa0fc'' else ''#b3e9f8'')
      else if contains KAKKU (dept r) then
        (if contains VTR (remark r) then ''#00d65b'' else ''#cbf266'')
      else ''#c8c8cb'')
   \<and> get_color d n =
     (if contains JINRIKI (or_empty d) then
        (if contains VTR (or_empty n) then ''#2fa0fc'' else ''#b3e9f8'')
      else if contains KAKKU (or_empty d) then
        (if contains VTR (or_empty n) then ''#00d65b'' else ''#cbf266'')
      else ''#c8c8cb'')
   \<and> ''#9a9a9a'' \<notin> {''#2fa0fc'', ''#b3e9f8'', ''#00d65b'', ''#cbf266'', ''#c8c8cb''}"
  by (simp add: bar_color_def get_color_def or_empty_def Let_def)

section \<open>The last run of the team merge\<close>

text \<open>
  C9. A sheet whose only row has an empty team cell: the run of the empty team is open
  when the loop ends, and the merged output is empty, so the run is not appended. A run
  of the empty team that a later team closes is appended.
\<close>

theorem team_merge_trailing_empty_team:
  "team_merge (process_sheet [sheet_row 10 [] [] []] True) = []
   \<and> team_merge (process_sheet [sheet_row 10 [] [] [], sheet_row 5 (ascii ''A'') [] []] True)
       = [([], 0, 10), (ascii ''A'', 10, 15)]"
  by (simp add: eval_sheet team_merge_def team_step_def team_finish_def close_run_def)

section \<open>Inside or outside\<close>

lemma sec_per_px_value: "sec_per_px = 8 / 3"
  by (simp add: sec_per_px_def axis_len_def fig_w_px_def)

lemma need_sec_Inr: "need_sec (Inr bb_width) = Inr (bb_width * (8 / 3) + 6)"
  by (simp add: need_sec_def sec_per_px_value)

lemma need_sec_Inl: "need_sec (Inl err) = Inl err"
  by (simp add: need_sec_def)

lemma need_sec_ge: "0 \<le> bb_width \<Longrightarrow> need_sec (Inr bb_width) = Inr n \<Longrightarrow> 6 \<le> n"
  by (auto simp: need_sec_Inr)

text \<open>
  As C8 states it, every merged span is either drawn inside or queued. A span of the
  empty team, five seconds long, is in neither list: the loop skips it. A span whose
  label the renderer refuses is in neither list: the error ends the loop.
\<close>

theorem team_label_blank_counterexample:
  "need_sec (Inr 0) = Inr 6 \<and> \<not> (5 - 0 > (6::real))
   \<and> team_label (Inr 0) 0 ([], 0, 5) ([], []) = Inr ([], [])
   \<and> team_label (Inl RenderError) 0 (ascii ''$$'', 0, 5) ([], []) = Inl RenderError"
  by (simp add: team_label_def need_sec_def blank_def ascii_def is_space_def)

text \<open>
  C8, amended. A merged span whose team is not blank and whose label the renderer draws
  is drawn centred inside its bar if and only if its duration is strictly greater than
  the width of its text in pixels times the seconds per pixel of the 7200-second axis,
  plus 6 seconds; otherwise it is queued as an outside label, anchored at the middle of
  the span, preferred 6 seconds right of its end. A span whose team is blank is skipped:
  neither drawn nor queued. When the renderer raises on a label that is not blank, the
  span is neither drawn nor queued and the error ends the loop. A span of 5 seconds
  whose team is not blank and whose label the renderer draws is queued, whatever the
  width of its text. A digest group is decided by the same comparison on its own label.
\<close>

theorem team_label_decision:
  "(\<not> blank tm \<longrightarrow>
      team_label (Inr bb_width) y0 (tm, s, e) (drawn, row_outside) =
        Inr (if e - s > bb_width * (7200 / (18 * 150)) + 6 then
               (drawn @ [\<lparr> in_x = (s + e) / 2, in_y = y0, in_label = tm, in_style = None \<rparr>],
                row_outside)
             else
               (drawn,
                row_outside @
                  [\<lparr> label = tm, anchor_x = (s + e) / 2, pref_x = e + 6,
                     width = bb_width * (7200 / (18 * 150)) + 6, style = None \<rparr>])))
   \<and> (blank tm \<longrightarrow> team_label bb y0 (tm, s, e) (drawn, row_outside) = Inr (drawn, row_outside))
   \<and> (\<not> blank tm \<longrightarrow> team_label (Inl err) y0 (tm, s, e) (drawn, row_outside) = Inl err)
   \<and> (\<not> blank tm \<and> 0 \<le> bb_width \<and> e - s = 5 \<longrightarrow>
        team_label (Inr bb_width) y0 (tm, s, e) (drawn, row_outside) =
          Inr (drawn,
               row_outside @
                 [\<lparr> label = tm, anchor_x = (s + e) / 2, pref_x = e + 6,
                    width = bb_width * (7200 / (18 * 150)) + 6, style = None \<rparr>]))
   \<and> digest_label (Inr bb_width) y0 (s, e, N) (drawn, row_outside) =
        Inr (if e - s > bb_width * (7200 / (18 * 150)) + 6 then
               (drawn @ [\<lparr> in_x = (s + e) / 2, in_y = y0, in_label = digest_text N,
                           in_style = Some ''italic'' \<rparr>],
                row_outside)
             else
               (drawn,
                row_outside @
                  [\<lparr> label = digest_text N, anchor_x = (s + e) / 2, pref_x = e + 6,
                     width = bb_width * (7200 / (18 * 150)) + 6, style = Some ''italic'' \<rparr>]))
   \<and> digest_label (Inl err) y0 (s, e, N) (drawn, row_outside) = Inl err"
proof -
  have a: "\<not> blank tm \<longrightarrow>
      team_label (Inr bb_width) y0 (tm, s, e) (drawn, row_outside) =
        Inr (if e - s > bb_width * (7200 / (18 * 150)) + 6 then
               (drawn @ [\<lparr> in_x = (s + e) / 2, in_y = y0, in_label = tm, in_style = None \<rparr>],
                row_outside)
             else
               (drawn,
                row_outside @
                  [\<lparr> label = tm, anchor_x = (s + e) / 2, pref_x = e + 6,
                     width = bb_width * (7200 / (18 * 150)) + 6, style = None \<rparr>]))"
    by (simp add: team_label_def Let_def need_sec_Inr)
  have b: "blank tm \<longrightarrow> team_label bb y0 (tm, s, e) (drawn, row_outside) = Inr (drawn, row_outside)"
    by (simp add: team_label_def)
  have c: "\<not> blank tm \<longrightarrow> team_label (Inl err) y0 (tm, s, e) (drawn, row_outside) = Inl err"
    by (simp add: team_label_def Let_def need_sec_Inl)
  have d: "\<not> blank tm \<and> 0 \<le> bb_width \<and> e - s = 5 \<longrightarrow>
        team_label (Inr bb_width) y0 (tm, s, e) (drawn, row_outside) =
          Inr (drawn,
               row_outside @
                 [\<lparr> label = tm, anchor_x = (s + e) / 2, pref_x = e + 6,
                    width = bb_width * (7200 / (18 * 150)) + 6, style = None \<rparr>])"
    by (simp add: team_label_def Let_def need_sec_Inr)
  have f: "digest_label (Inr bb_width) y0 (s, e, N) (drawn, row_outside) =
        Inr (if e - s > bb_width * (7200 / (18 * 150)) + 6 then
               (drawn @ [\<lparr> in_x = (s + e) / 2, in_y = y0, in_label = digest_text N,
                           in_style = Some ''italic'' \<rparr>],
                row_outside)
             else
               (drawn,
                row_outside @
                  [\<lparr> label = digest_text N, anchor_x = (s + e) / 2, pref_x = e + 6,
                     width = bb_width * (7200 / (18 * 150)) + 6, style = Some ''italic'' \<rparr>]))"
    by (simp add: digest_label_def Let_def need_sec_Inr)
  have g: "digest_label (Inl err) y0 (s, e, N) (drawn, row_outside) = Inl err"
    by (simp add: digest_label_def Let_def need_sec_Inl)
  from a b c d f g show ?thesis by blast
qed

theorem team_label_decision_witness:
  "\<not> blank (ascii ''ABCDEFGHIJKLMNOPQRST'') \<and> blank [] \<and> (0::real) \<le> 40 \<and> (5::real) - 0 = 5
   \<and> team_label (Inr 40) 0 (ascii ''ABCDEFGHIJKLMNOPQRST'', 0, 5) ([], []) =
       Inr ([], [\<lparr> label = ascii ''ABCDEFGHIJKLMNOPQRST'', anchor_x = 5 / 2, pref_x = 11,
                   width = 338 / 3, style = None \<rparr>])
   \<and> team_label (Inr 1) 0 (ascii ''A'', 0, 600) ([], []) =
       Inr ([\<lparr> in_x = 300, in_y = 0, in_label = ascii ''A'', in_style = None \<rparr>], [])
   \<and> team_label (Inr 0) 0 ([], 0, 5) ([], []) = Inr ([], [])
   \<and> team_label (Inl RenderError) 0 (ascii ''A'', 0, 600) ([], []) = Inl RenderError"
proof -
  have nb: "\<not> blank (ascii ''ABCDEFGHIJKLMNOPQRST'')" and na: "\<not> blank (ascii ''A'')"
    and b: "blank []"
    by (simp_all add: blank_def ascii_def is_space_def)
  from nb na b
    team_label_decision [of "ascii ''ABCDEFGHIJKLMNOPQRST''" 40 0 0 5 "[]" "[]"]
    team_label_decision [of "ascii ''A''" 1 0 0 600 "[]" "[]" _ RenderError]
    team_label_decision [of "[]" _ 0 0 5 "[]" "[]" "Inr 0"]
  show ?thesis by simp
qed

section \<open>Commercials left out\<close>

lemma clean_row_is_cm: "clean_row r = Some c \<Longrightarrow> is_cm c = raw_is_cm r"
  by (auto simp: clean_row_def raw_is_cm_def split: option.splits if_splits)

lemma filter_clean_rows:
  "filter (\<lambda>c. \<not> is_cm c) (List.map_filter clean_row sheet)
     = List.map_filter clean_row (filter (\<lambda>r. \<not> raw_is_cm r) sheet)"
proof (induction sheet)
  case Nil
  then show ?case by (simp add: List.map_filter_simps)
next
  case (Cons r sheet)
  then show ?case
    by (cases "clean_row r") (auto simp: List.map_filter_simps dest: clean_row_is_cm)
qed

lemma filter_clean_rows_idem:
  "filter (\<lambda>c. \<not> is_cm c) (List.map_filter clean_row (filter (\<lambda>r. \<not> raw_is_cm r) sheet))
     = List.map_filter clean_row (filter (\<lambda>r. \<not> raw_is_cm r) sheet)"
  by (simp add: filter_clean_rows)

lemma process_sheet_without_cm:
  "process_sheet sheet False
     = map2 with_offsets (List.map_filter clean_row (filter (\<lambda>r. \<not> raw_is_cm r) sheet))
         (cumsum 0 (map dur (List.map_filter clean_row (filter (\<lambda>r. \<not> raw_is_cm r) sheet))))"
  by (simp add: process_sheet_def Let_def filter_clean_rows)

lemma is_cm_with_offsets [simp]: "is_cm (with_offsets r c) = is_cm r"
  by (simp add: with_offsets_def row.defs Let_def)

lemma filter_is_cm_offsets:
  "length cs = length df \<Longrightarrow> \<forall>x\<in>set df. \<not> is_cm x \<Longrightarrow>
   filter is_cm (map2 with_offsets df cs) = []"
proof (induction df arbitrary: cs)
  case Nil
  then show ?case by simp
next
  case (Cons r df)
  then obtain c cs' where cs: "cs = c # cs'" by (cases cs) auto
  from Cons.IH [of cs'] Cons.prems show ?case by (simp add: cs)
qed

lemma no_cm_after_filter:
  "\<forall>x\<in>set (List.map_filter clean_row (filter (\<lambda>r. \<not> raw_is_cm r) sheet)). \<not> is_cm x"
  using filter_clean_rows_idem [of sheet] by (simp only: filter_id_conv)

text \<open>
  C5. With \<open>include_cm\<close> false the frame is the one of the sheet without its commercial
  rows, processed with commercials kept: they are gone before any offset is computed,
  and no row of the frame is a commercial. For the sheet of 600 and 300 seconds of team
  A and a commercial of 100 seconds, the merged spans are the one span of A from 0 to
  900, and the frame ends at 900 seconds; with commercials kept it ends at 1000.
\<close>

theorem process_sheet_drops_commercials:
  "process_sheet sheet False = process_sheet (filter (\<lambda>r. \<not> raw_is_cm r) sheet) True
   \<and> filter is_cm (process_sheet sheet False) = []
   \<and> team_merge (process_sheet commercial_sheet False) = [(ascii ''A'', 0, 900)]
   \<and> map end_s (process_sheet commercial_sheet False) = [600, 900]
   \<and> sum_list (map dur (process_sheet commercial_sheet False)) = 900
   \<and> map end_s (process_sheet commercial_sheet True) = [600, 900, 1000]
   \<and> team_merge (process_sheet commercial_sheet True) = [(ascii ''A'', 0, 900)]"
proof -
  have a: "process_sheet sheet False = process_sheet (filter (\<lambda>r. \<not> raw_is_cm r) sheet) True"
    by (simp add: process_sheet_without_cm) (simp add: process_sheet_def Let_def)
  have b: "filter is_cm (process_sheet sheet False) = []"
    unfolding process_sheet_without_cm
    by (rule filter_is_cm_offsets) (simp_all add: length_cumsum no_cm_after_filter)
  have c: "team_merge (process_sheet commercial_sheet False) = [(ascii ''A'', 0, 900)]"
    by (simp add: eval_sheet commercial_sheet_def team_merge_def team_step_def team_finish_def
        close_run_def)
  have d: "map end_s (process_sheet commercial_sheet False) = [600, 900]"
    by (simp add: eval_sheet commercial_sheet_def)
  have e: "sum_list (map dur (process_sheet commercial_sheet False)) = 900"
    by (simp add: eval_sheet commercial_sheet_def)
  have f: "map end_s (process_sheet commercial_sheet True) = [600, 900, 1000]"
    by (simp add: eval_sheet commercial_sheet_def)
  have g: "team_merge (process_sheet commercial_sheet True) = [(ascii ''A'', 0, 900)]"
    by (simp add: eval_sheet commercial_sheet_def team_merge_def team_step_def team_finish_def
        close_run_def)
  from a b c d e f g show ?thesis by blast
qed

section \<open>Digest groups\<close>

lemma scan_digest_eq:
  "j < length df \<Longrightarrow> scan_digest df j = j + length (takeWhile is_digest (drop (Suc j) df))"
proof (induction df j rule: scan_digest.induct)
  case (1 df j)
  show ?case
  proof (cases "j + 1 < length df \<and> is_digest (df ! (j + 1))")
    case True
    then have d: "drop (Suc j) df = df ! (j + 1) # drop (Suc (j + 1)) df"
      by (simp add: Cons_nth_drop_Suc)
    from True have "scan_digest df j = scan_digest df (j + 1)"
      by (subst scan_digest.simps) simp
    also from True "1.IH" have "\<dots> = j + 1 + length (takeWhile is_digest (drop (Suc (j + 1)) df))"
      by simp
    also from True have "\<dots> = j + length (takeWhile is_digest (drop (Suc j) df))"
      by (simp add: d)
    finally show ?thesis .
  next
    case False
    then have s: "scan_digest df j = j"
      by (subst scan_digest.simps) auto
    have "takeWhile is_digest (drop (Suc j) df) = []"
    proof (cases "j + 1 < length df")
      case True
      with False have "\<not> is_digest (df ! (j + 1))" by simp
      moreover from True have "drop (Suc j) df = df ! (j + 1) # drop (Suc (j + 1)) df"
        by (simp add: Cons_nth_drop_Suc)
      ultimately show ?thesis by simp
    next
      case False
      then show ?thesis by simp
    qed
    with s show ?thesis by simp
  qed
qed

lemma last_Cons_take: "k \<le> length xs \<Longrightarrow> last (x # take k xs) = (x # xs) ! k"
proof (induction xs arbitrary: x k)
  case Nil
  then show ?case by simp
next
  case (Cons y ys)
  show ?case
  proof (cases k)
    case 0
    then show ?thesis by simp
  next
    case (Suc m)
    with Cons.prems have "m \<le> length ys" by simp
    from Cons.IH [OF this, of y] Suc show ?thesis by simp
  qed
qed

lemma digest_loop_eq:
  "i \<le> length df \<Longrightarrow> digest_loop df i acc = acc @ spec_digest_groups (drop i df)"
proof (induction df i acc rule: digest_loop.induct)
  case (1 df i acc)
  show ?case
  proof (cases "i < length df")
    case False
    with "1.prems" have "drop i df = []" by simp
    moreover from False have "digest_loop df i acc = acc"
      by (subst digest_loop.simps) simp
    ultimately show ?thesis by simp
  next
    case True
    then have d: "drop i df = df ! i # drop (Suc i) df"
      by (simp add: Cons_nth_drop_Suc)
    show ?thesis
    proof (cases "is_digest (df ! i)")
      case False
      with True have "digest_loop df i acc = digest_loop df (i + 1) acc"
        by (subst digest_loop.simps) simp
      also from True False "1.IH"(2) have "\<dots> = acc @ spec_digest_groups (drop (i + 1) df)"
        by simp
      also from False have "\<dots> = acc @ spec_digest_groups (drop i df)"
        by (simp add: d)
      finally show ?thesis .
    next
      case dg: True
      define rest where "rest = drop (Suc i) df"
      define k where "k = length (takeWhile is_digest rest)"
      have j: "scan_digest df i = i + k"
        using scan_digest_eq [OF True] by (simp add: k_def rest_def)
      have kle: "k \<le> length rest"
        unfolding k_def by (rule length_takeWhile_le)
      then have jle: "scan_digest df i + 1 \<le> length df"
        using True by (simp add: j rest_def)
      have tw: "takeWhile is_digest rest = take k rest"
        unfolding k_def by (rule takeWhile_eq_take)
      have dw: "dropWhile is_digest rest = drop (scan_digest df i + 1) df"
        by (simp add: dropWhile_eq_drop j k_def rest_def add.commute)
      have "(df ! i # rest) ! k = drop i df ! k"
        by (simp add: d rest_def)
      also have "\<dots> = df ! (i + k)"
        using True kle by (simp add: rest_def)
      finally have lst: "last (df ! i # takeWhile is_digest rest) = df ! scan_digest df i"
        using last_Cons_take [OF kle, of "df ! i"] by (simp add: tw j)
      have cnt: "scan_digest df i - i = length (takeWhile is_digest rest)"
        by (simp add: j k_def)
      from True dg have "digest_loop df i acc =
          digest_loop df (scan_digest df i + 1)
            (acc @ [(start_s (df ! i), end_s (df ! scan_digest df i), scan_digest df i - i + 1)])"
        by (subst digest_loop.simps) simp
      also from True dg jle "1.IH"(1) have "\<dots> =
          (acc @ [(start_s (df ! i), end_s (df ! scan_digest df i), scan_digest df i - i + 1)])
            @ spec_digest_groups (drop (scan_digest df i + 1) df)"
        by simp
      also have "\<dots> = acc @ spec_digest_groups (df ! i # rest)"
        using dg by (simp add: lst cnt dw del: last.simps)
      finally show ?thesis by (simp add: d rest_def)
    qed
  qed
qed

lemma digest_merge_eq_spec: "digest_merge df = spec_digest_groups df"
  using digest_loop_eq [of 0 df "[]"] by (simp add: digest_merge_def)

lemma takeWhile_digest_stop:
  "\<not> is_digest x \<Longrightarrow> takeWhile is_digest (rs @ x # ys) = takeWhile is_digest rs"
  by (induction rs) auto

lemma dropWhile_digest_stop:
  "\<not> is_digest x \<Longrightarrow> dropWhile is_digest (rs @ x # ys) = dropWhile is_digest rs @ x # ys"
  by (induction rs) auto

lemma spec_digest_groups_split:
  "\<not> is_digest x \<Longrightarrow>
   spec_digest_groups (xs @ x # ys) = spec_digest_groups xs @ spec_digest_groups ys"
proof (induction xs rule: spec_digest_groups.induct)
  case 1
  then show ?case by simp
next
  case (2 r rs)
  then show ?case
    by (simp add: takeWhile_digest_stop dropWhile_digest_stop del: last.simps)
qed

lemma takeWhile_whole_run:
  assumes "\<forall>r\<in>set rs. is_digest r" and "post = [] \<or> \<not> is_digest (hd post)"
  shows "takeWhile is_digest (rs @ post) = rs"
proof (cases post)
  case Nil
  with assms(1) show ?thesis by simp
next
  case (Cons p ps)
  with assms(2) have "\<not> is_digest p" by simp
  with assms(1) show ?thesis by (simp add: Cons takeWhile_append2)
qed

lemma spec_digest_groups_run:
  assumes "run \<noteq> []" and "\<forall>r\<in>set run. is_digest r"
    and "pre = [] \<or> \<not> is_digest (last pre)" and "post = [] \<or> \<not> is_digest (hd post)"
  shows "(start_s (hd run), end_s (last run), length run)
           \<in> set (spec_digest_groups (pre @ run @ post))"
proof -
  from assms(1) obtain r rs where run: "run = r # rs" by (cases run) auto
  with assms(2) have r: "is_digest r" and rs: "\<forall>x\<in>set rs. is_digest x" by simp_all
  have tw: "takeWhile is_digest (rs @ post) = rs"
    by (rule takeWhile_whole_run [OF rs assms(4)])
  have hd: "(start_s (hd run), end_s (last run), length run)
              \<in> set (spec_digest_groups (run @ post))"
    using r by (simp add: run tw del: last.simps)
  show ?thesis
  proof (cases pre rule: rev_cases)
    case Nil
    with hd show ?thesis by simp
  next
    case (snoc ps x)
    with assms(3) have "\<not> is_digest x" by simp
    then have "spec_digest_groups (ps @ x # (run @ post))
                 = spec_digest_groups ps @ spec_digest_groups (run @ post)"
      by (rule spec_digest_groups_split)
    with hd show ?thesis by (simp add: snoc)
  qed
qed

lemma filter_digest_split:
  "length (filter is_digest rs)
     = length (takeWhile is_digest rs) + length (filter is_digest (dropWhile is_digest rs))"
  by (induction rs) auto

lemma spec_digest_groups_count:
  "sum_list (map (\<lambda>g. snd (snd g)) (spec_digest_groups df)) = length (filter is_digest df)"
proof (induction df rule: spec_digest_groups.induct)
  case 1
  then show ?case by simp
next
  case (2 r rs)
  then show ?case
    using filter_digest_split [of rs] by (simp del: last.simps)
qed

lemma spec_digest_groups_map:
  assumes "\<And>r. is_digest (g r) = is_digest r"
    and "\<And>r. start_s (g r) = start_s r" and "\<And>r. end_s (g r) = end_s r"
  shows "spec_digest_groups (map g df) = spec_digest_groups df"
proof (induction df rule: spec_digest_groups.induct)
  case 1
  then show ?case by simp
next
  case (2 r rs)
  have c: "is_digest \<circ> g = is_digest"
    using assms(1) by (simp add: fun_eq_iff)
  have tw: "takeWhile is_digest (map g rs) = map g (takeWhile is_digest rs)"
    by (simp add: takeWhile_map c)
  have dw: "dropWhile is_digest (map g rs) = map g (dropWhile is_digest rs)"
    by (simp add: dropWhile_map c)
  have "last (g r # map g (takeWhile is_digest rs)) = g (last (r # takeWhile is_digest rs))"
    using last_map [of "r # takeWhile is_digest rs" g] by simp
  then have l: "end_s (last (g r # map g (takeWhile is_digest rs)))
                  = end_s (last (r # takeWhile is_digest rs))"
    by (simp only: assms(3))
  from 2 show ?case
    by (simp add: assms tw dw l del: last.simps)
qed

text \<open>
  C6. The digest merge is the grouping of the specification. Every maximal run of
  digest rows, one that no digest row precedes or follows without a gap, gives the group
  of the start of its first row, the end of its last row and its length; the counts of
  the groups add up to the number of digest rows; the team labels have no part in it.
  Three digest rows in a row, the first starting at 1000 and the last ending at 1150,
  give the one group (1000, 1150, 3), whatever their teams.
\<close>

theorem digest_merge_groups:
  "digest_merge df = spec_digest_groups df
   \<and> (run \<noteq> [] \<and> (\<forall>r\<in>set run. is_digest r)
        \<and> (pre = [] \<or> \<not> is_digest (last pre)) \<and> (post = [] \<or> \<not> is_digest (hd post))
      \<longrightarrow> (start_s (hd run), end_s (last run), length run)
            \<in> set (digest_merge (pre @ run @ post)))
   \<and> sum_list (map (\<lambda>g. snd (snd g)) (digest_merge df)) = length (filter is_digest df)
   \<and> digest_merge (map (\<lambda>r. r\<lparr>team := f r\<rparr>) df) = digest_merge df
   \<and> (is_digest a \<and> is_digest b \<and> is_digest c \<and> start_s a = 1000 \<and> end_s c = 1150
      \<longrightarrow> digest_merge [a, b, c] = [(1000, 1150, 3)])"
proof -
  have "digest_merge (map (\<lambda>r. r\<lparr>team := f r\<rparr>) df) = digest_merge df"
    unfolding digest_merge_eq_spec by (rule spec_digest_groups_map) simp_all
  then show ?thesis
    using spec_digest_groups_run [of run pre post] spec_digest_groups_count [of df]
    by (simp add: digest_merge_eq_spec)
qed

theorem digest_merge_groups_witness:
  "drop 1 (process_sheet digest_sheet True) \<noteq> []
   \<and> is_digest (process_sheet digest_sheet True ! 1)
   \<and> is_digest (process_sheet digest_sheet True ! 2)
   \<and> is_digest (process_sheet digest_sheet True ! 3)
   \<and> \<not> is_digest (last (take 1 (process_sheet digest_sheet True)))
   \<and> (1000, 1150, 3) \<in> set (digest_merge (process_sheet digest_sheet True))
   \<and> digest_merge (drop 1 (process_sheet digest_sheet True)) = [(1000, 1150, 3)]"
proof -
  have run: "drop 1 (process_sheet digest_sheet True) \<noteq> []"
    and dg: "\<forall>r\<in>set (drop 1 (process_sheet digest_sheet True)). is_digest r"
    and pre: "\<not> is_digest (last (take 1 (process_sheet digest_sheet True)))"
    and three: "drop 1 (process_sheet digest_sheet True)
                  = [process_sheet digest_sheet True ! 1, process_sheet digest_sheet True ! 2,
                     process_sheet digest_sheet True ! 3]"
    and vals: "start_s (process_sheet digest_sheet True ! 1) = 1000"
      "end_s (process_sheet digest_sheet True ! 3) = 1150"
      "is_digest (process_sheet digest_sheet True ! 1)"
      "is_digest (process_sheet digest_sheet True ! 2)"
      "is_digest (process_sheet digest_sheet True ! 3)"
    by (simp_all add: eval_sheet digest_sheet_def)
  from three vals(1,2) have span: "start_s (hd (drop 1 (process_sheet digest_sheet True))) = 1000"
    "end_s (last (drop 1 (process_sheet digest_sheet True))) = 1150"
    "length (drop 1 (process_sheet digest_sheet True)) = 3"
    by simp_all
  have whole: "take 1 (process_sheet digest_sheet True) @ drop 1 (process_sheet digest_sheet True) @ []
                 = process_sheet digest_sheet True"
    by simp
  note th = digest_merge_groups [where df = "process_sheet digest_sheet True" and f = team
      and run = "drop 1 (process_sheet digest_sheet True)"
      and pre = "take 1 (process_sheet digest_sheet True)" and post = "[]"
      and a = "process_sheet digest_sheet True ! 1" and b = "process_sheet digest_sheet True ! 2"
      and c = "process_sheet digest_sheet True ! 3"]
  from th run dg pre
  have "(start_s (hd (drop 1 (process_sheet digest_sheet True))),
         end_s (last (drop 1 (process_sheet digest_sheet True))),
         length (drop 1 (process_sheet digest_sheet True)))
        \<in> set (digest_merge (take 1 (process_sheet digest_sheet True)
                  @ drop 1 (process_sheet digest_sheet True) @ []))"
    by blast
  then have m: "(1000, 1150, 3) \<in> set (digest_merge (process_sheet digest_sheet True))"
    by (simp only: span whole)
  from th vals have "digest_merge [process_sheet digest_sheet True ! 1,
      process_sheet digest_sheet True ! 2, process_sheet digest_sheet True ! 3] = [(1000, 1150, 3)]"
    by blast
  then have s: "digest_merge (drop 1 (process_sheet digest_sheet True)) = [(1000, 1150, 3)]"
    by (simp only: three [symmetric])
  from run vals(3,4,5) pre m s show ?thesis by blast
qed

section \<open>Digest rows around commercials that are left out\<close>

lemma cumsum_append: "cumsum a (xs @ ys) = cumsum a xs @ cumsum (a + sum_list xs) ys"
  by (induction xs arbitrary: a) (simp_all add: add.assoc)

lemma offsets_append:
  "map2 with_offsets (xs @ ys) (cumsum a (map dur (xs @ ys)))
     = map2 with_offsets xs (cumsum a (map dur xs))
       @ map2 with_offsets ys (cumsum (a + sum_list (map dur xs)) (map dur ys))"
  by (simp add: cumsum_append length_cumsum)

lemma map_filter_append:
  "List.map_filter f (xs @ ys) = List.map_filter f xs @ List.map_filter f ys"
  by (simp add: List.map_filter_def)

lemma is_digest_with_offsets [simp]:
  "is_digest (with_offsets r c) = contains DIGEST (remark r)"
  by (simp add: with_offsets_def row.defs Let_def)

lemma hd_offsets_digest:
  "df \<noteq> [] \<Longrightarrow>
   is_digest (hd (map2 with_offsets df (cumsum a (map dur df)))) = contains DIGEST (remark (hd df))"
  by (cases df) simp_all

lemma offsets_Nil_iff: "map2 with_offsets df (cumsum a (map dur df)) = [] \<longleftrightarrow> df = []"
  by (cases df) simp_all

lemma kept_commercials:
  "\<forall>c\<in>set cms. raw_is_cm c \<Longrightarrow> filter (\<lambda>r. \<not> raw_is_cm r) cms = []"
  by (induction cms) simp_all

lemma kept_digest_row:
  assumes "raw_dur d = Some x" and "0 < x" and "\<not> raw_is_cm d"
  shows "List.map_filter clean_row (filter (\<lambda>r. \<not> raw_is_cm r) [d])
           = [\<lparr> dur = x, team = or_empty (raw_team d), dept = or_empty (raw_dept d),
                remark = or_empty (raw_remark d), is_cm = False \<rparr>]"
  using assms by (simp add: List.map_filter_simps clean_row_def raw_is_cm_def)

text \<open>
  C10. With \<open>include_cm\<close> false, commercial rows between two rows leave no trace in
  the frame. Two digest rows \<open>d1\<close> and \<open>d2\<close> of \<open>x\<close> and \<open>y\<close> seconds, themselves
  no commercials, with only commercial rows between them, no digest row kept just before
  \<open>d1\<close> and none just after \<open>d2\<close>, are one digest group of count 2 that starts where the
  rows before \<open>d1\<close> end and is \<open>x + y\<close> seconds long.
\<close>

theorem digest_group_across_commercials:
  assumes "\<forall>c\<in>set cms. raw_is_cm c"
    and "raw_dur d1 = Some x" and "0 < x" and "\<not> raw_is_cm d1"
    and "contains DIGEST (or_empty (raw_remark d1))"
    and "raw_dur d2 = Some y" and "0 < y" and "\<not> raw_is_cm d2"
    and "contains DIGEST (or_empty (raw_remark d2))"
    and "process_sheet pre False = [] \<or> \<not> is_digest (last (process_sheet pre False))"
    and "process_sheet post False = [] \<or> \<not> is_digest (hd (process_sheet post False))"
  shows "process_sheet (pre @ d1 # cms @ d2 # post) False
           = process_sheet (pre @ d1 # d2 # post) False
       \<and> (sum_list (map dur (process_sheet pre False)),
          sum_list (map dur (process_sheet pre False)) + x + y, 2)
         \<in> set (digest_merge (process_sheet (pre @ d1 # cms @ d2 # post) False))"
proof -
  define K where "K = (\<lambda>sheet. List.map_filter clean_row (filter (\<lambda>r. \<not> raw_is_cm r) sheet))"
  define r1 where "r1 = \<lparr> dur = x, team = or_empty (raw_team d1), dept = or_empty (raw_dept d1),
    remark = or_empty (raw_remark d1), is_cm = False \<rparr>"
  define r2 where "r2 = \<lparr> dur = y, team = or_empty (raw_team d2), dept = or_empty (raw_dept d2),
    remark = or_empty (raw_remark d2), is_cm = False \<rparr>"
  define T where "T = sum_list (map dur (K pre))"
  have ps: "process_sheet sheet False = map2 with_offsets (K sheet) (cumsum 0 (map dur (K sheet)))"
    for sheet
    unfolding K_def by (rule process_sheet_without_cm)
  have Kapp: "K (xs @ ys) = K xs @ K ys" for xs ys
    by (simp add: K_def map_filter_append)
  have Kcms: "K cms = []"
    using kept_commercials [OF assms(1)] by (simp add: K_def List.map_filter_simps)
  have K1: "K [d1] = [r1]"
    unfolding K_def r1_def by (rule kept_digest_row [OF assms(2,3,4)])
  have K2: "K [d2] = [r2]"
    unfolding K_def r2_def by (rule kept_digest_row [OF assms(6,7,8)])
  have Kwith: "K (pre @ d1 # cms @ d2 # post) = K pre @ [r1, r2] @ K post"
    using Kapp [of pre "[d1] @ cms @ [d2] @ post"] Kapp [of "[d1]" "cms @ [d2] @ post"]
      Kapp [of cms "[d2] @ post"] Kapp [of "[d2]" post]
    by (simp add: Kcms K1 K2)
  have Kwithout: "K (pre @ d1 # d2 # post) = K pre @ [r1, r2] @ K post"
    using Kapp [of pre "[d1] @ [d2] @ post"] Kapp [of "[d1]" "[d2] @ post"] Kapp [of "[d2]" post]
    by (simp add: K1 K2)
  have same: "process_sheet (pre @ d1 # cms @ d2 # post) False
                = process_sheet (pre @ d1 # d2 # post) False"
    by (simp only: ps Kwith Kwithout)
  define A where "A = map2 with_offsets (K pre) (cumsum 0 (map dur (K pre)))"
  define B where "B = map2 with_offsets (K post) (cumsum (T + x + y) (map dur (K post)))"
  define s1 where "s1 = with_offsets r1 (T + x)"
  define s2 where "s2 = with_offsets r2 (T + x + y)"
  have mid: "map2 with_offsets [r1, r2] (cumsum T (map dur [r1, r2])) = [s1, s2]"
    by (simp add: s1_def s2_def r1_def r2_def)
  have tot: "T + sum_list (map dur [r1, r2]) = T + x + y"
    by (simp add: r1_def r2_def)
  have "map2 with_offsets (K pre @ ([r1, r2] @ K post))
          (cumsum 0 (map dur (K pre @ ([r1, r2] @ K post))))
        = A @ map2 with_offsets ([r1, r2] @ K post) (cumsum (0 + T) (map dur ([r1, r2] @ K post)))"
    unfolding A_def T_def by (rule offsets_append)
  also have "map2 with_offsets ([r1, r2] @ K post) (cumsum (0 + T) (map dur ([r1, r2] @ K post)))
        = map2 with_offsets [r1, r2] (cumsum T (map dur [r1, r2]))
          @ map2 with_offsets (K post) (cumsum (T + sum_list (map dur [r1, r2])) (map dur (K post)))"
    using offsets_append [of "[r1, r2]" "K post" T] by simp
  also have "\<dots> = [s1, s2] @ B"
    by (simp only: mid tot B_def)
  finally have frame: "process_sheet (pre @ d1 # cms @ d2 # post) False = A @ [s1, s2] @ B"
    by (simp only: ps Kwith)
  have A: "A = process_sheet pre False"
    by (simp add: A_def ps)
  have TA: "T = sum_list (map dur (process_sheet pre False))"
    by (simp only: T_def ps map_dur_offsets)
  have preA: "A = [] \<or> \<not> is_digest (last A)"
    using assms(10) by (simp add: A)
  have postB: "B = [] \<or> \<not> is_digest (hd B)"
  proof (cases "K post = []")
    case True
    then show ?thesis by (simp add: B_def)
  next
    case False
    then have "process_sheet post False \<noteq> []"
      by (simp only: ps offsets_Nil_iff not_False_eq_True)
    with assms(11) have "\<not> is_digest (hd (process_sheet post False))"
      by blast
    then have "\<not> contains DIGEST (remark (hd (K post)))"
      by (simp only: ps hd_offsets_digest [OF False] simp_thms)
    then show ?thesis
      by (simp only: B_def hd_offsets_digest [OF False] simp_thms)
  qed
  have run: "[s1, s2] \<noteq> []" "\<forall>r\<in>set [s1, s2]. is_digest r"
    using assms(5,9) by (simp_all add: s1_def s2_def r1_def r2_def)
  have "(start_s (hd [s1, s2]), end_s (last [s1, s2]), length [s1, s2])
          \<in> set (spec_digest_groups (A @ [s1, s2] @ B))"
    by (rule spec_digest_groups_run [OF run preA postB])
  moreover have "start_s s1 = T" "end_s s2 = T + x + y"
    by (simp_all add: s1_def s2_def r1_def)
  ultimately have "(T, T + x + y, 2)
      \<in> set (digest_merge (process_sheet (pre @ d1 # cms @ d2 # post) False))"
    by (simp add: digest_merge_eq_spec frame numeral_2_eq_2)
  with same show ?thesis by (simp add: TA)
qed

theorem digest_group_across_commercials_witness:
  "(0, 100, 2) \<in> set (digest_merge (process_sheet
      [sheet_row 50 (ascii ''P'') [] DIGEST, sheet_row 30 (ascii ''Q'') [] CM,
       sheet_row 20 [] CM [], sheet_row 50 (ascii ''R'') [] DIGEST,
       sheet_row 5 (ascii ''Z'') [] []] False))
   \<and> process_sheet
      [sheet_row 50 (ascii ''P'') [] DIGEST, sheet_row 30 (ascii ''Q'') [] CM,
       sheet_row 20 [] CM [], sheet_row 50 (ascii ''R'') [] DIGEST,
       sheet_row 5 (ascii ''Z'') [] []] False
     = process_sheet
      [sheet_row 50 (ascii ''P'') [] DIGEST, sheet_row 50 (ascii ''R'') [] DIGEST,
       sheet_row 5 (ascii ''Z'') [] []] False"
proof -
  have cms: "\<forall>c\<in>set [sheet_row 30 (ascii ''Q'') [] CM, sheet_row 20 [] CM []]. raw_is_cm c"
    and d1: "raw_dur (sheet_row 50 (ascii ''P'') [] DIGEST) = Some 50" "(0::real) < 50"
      "\<not> raw_is_cm (sheet_row 50 (ascii ''P'') [] DIGEST)"
      "contains DIGEST (or_empty (raw_remark (sheet_row 50 (ascii ''P'') [] DIGEST)))"
    and d2: "raw_dur (sheet_row 50 (ascii ''R'') [] DIGEST) = Some 50"
      "\<not> raw_is_cm (sheet_row 50 (ascii ''R'') [] DIGEST)"
      "contains DIGEST (or_empty (raw_remark (sheet_row 50 (ascii ''R'') [] DIGEST)))"
    by (simp_all add: sheet_row_def raw_is_cm_def mask_cm_def or_empty_def CM_def DIGEST_def
        ascii_def)
  have pre: "process_sheet [] False = [] \<or> \<not> is_digest (last (process_sheet [] False))"
    by (simp add: eval_sheet)
  have post: "process_sheet [sheet_row 5 (ascii ''Z'') [] []] False = []
      \<or> \<not> is_digest (hd (process_sheet [sheet_row 5 (ascii ''Z'') [] []] False))"
    by (simp add: eval_sheet)
  have zero: "sum_list (map dur (process_sheet [] False)) = 0"
    by (simp add: eval_sheet)
  note th = digest_group_across_commercials [OF cms d1(1,2,3,4) d2(1) d1(2) d2(2,3) pre post]
  from th have m: "(sum_list (map dur (process_sheet [] False)),
      sum_list (map dur (process_sheet [] False)) + 50 + 50, 2)
    \<in> set (digest_merge (process_sheet
      ([] @ sheet_row 50 (ascii ''P'') [] DIGEST
         # [sheet_row 30 (ascii ''Q'') [] CM, sheet_row 20 [] CM []]
         @ sheet_row 50 (ascii ''R'') [] DIGEST # [sheet_row 5 (ascii ''Z'') [] []]) False))"
    by (rule conjunct2)
  have m': "(0, 100, 2) \<in> set (digest_merge (process_sheet
      [sheet_row 50 (ascii ''P'') [] DIGEST, sheet_row 30 (ascii ''Q'') [] CM,
       sheet_row 20 [] CM [], sheet_row 50 (ascii ''R'') [] DIGEST,
       sheet_row 5 (ascii ''Z'') [] []] False))"
    using m by (simp add: zero)
  from th have e: "process_sheet
      ([] @ sheet_row 50 (ascii ''P'') [] DIGEST
         # [sheet_row 30 (ascii ''Q'') [] CM, sheet_row 20 [] CM []]
         @ sheet_row 50 (ascii ''R'') [] DIGEST # [sheet_row 5 (ascii ''Z'') [] []]) False
     = process_sheet
      ([] @ sheet_row 50 (ascii ''P'') [] DIGEST
         # sheet_row 50 (ascii ''R'') [] DIGEST # [sheet_row 5 (ascii ''Z'') [] []]) False"
    by (rule conjunct1)
  have e': "process_sheet
      [sheet_row 50 (ascii ''P'') [] DIGEST, sheet_row 30 (ascii ''Q'') [] CM,
       sheet_row 20 [] CM [], sheet_row 50 (ascii ''R'') [] DIGEST,
       sheet_row 5 (ascii ''Z'') [] []] False
     = process_sheet
      [sheet_row 50 (ascii ''P'') [] DIGEST, sheet_row 50 (ascii ''R'') [] DIGEST,
       sheet_row 5 (ascii ''Z'') [] []] False"
    using e by (simp only: append_Nil append_Cons)
  from m' e' show ?thesis by (rule conjI)
qed

section \<open>Team runs\<close>

lemma team_step_other:
  assumes "is_digest x \<or> is_cm x \<or> team x \<noteq> t"
  shows "map_option fst (snd (team_step x (m, cur))) \<noteq> Some t"
  using assms by (auto simp: team_step_def close_run_def split: option.splits)

lemma team_before_run:
  assumes "pre = [] \<or> is_digest (last pre) \<or> is_cm (last pre) \<or> team (last pre) \<noteq> t"
  shows "map_option fst (snd (fold team_step pre ([], None))) \<noteq> Some t"
proof (cases pre rule: rev_cases)
  case Nil
  then show ?thesis by simp
next
  case (snoc ps x)
  with assms have x: "is_digest x \<or> is_cm x \<or> team x \<noteq> t" by simp
  obtain m cur where st: "fold team_step ps ([], None) = (m, cur)"
    by (cases "fold team_step ps ([], None)")
  from team_step_other [OF x, of m cur] show ?thesis
    by (simp add: snoc st)
qed

lemma team_step_open:
  assumes "\<not> is_digest r" and "\<not> is_cm r" and "map_option fst cur \<noteq> Some (team r)"
  shows "team_step r (m, cur) = (close_run m cur, Some (team r, start_s r, end_s r))"
  using assms by (auto simp: team_step_def close_run_def split: option.splits)

lemma fold_team_extend:
  assumes "\<forall>r\<in>set rs. \<not> is_digest r \<and> \<not> is_cm r \<and> team r = t"
  shows "fold team_step rs (m, Some (t, s, e)) = (m, Some (t, s, last (e # map end_s rs)))"
  using assms by (induction rs arbitrary: e) (simp_all add: team_step_def)

text \<open>Spans that are merged already stay as they are, at the front of the output.\<close>

lemma team_step_prefix:
  "team_step x (A @ m, cur) = (A @ fst (team_step x (m, cur)), snd (team_step x (m, cur)))"
  by (auto simp: team_step_def close_run_def split: option.splits)

lemma fold_team_prefix:
  "fold team_step xs (A @ m, cur)
     = (A @ fst (fold team_step xs (m, cur)), snd (fold team_step xs (m, cur)))"
proof (induction xs arbitrary: m cur)
  case Nil
  then show ?case by simp
next
  case (Cons x xs)
  obtain m' cur' where st: "team_step x (m, cur) = (m', cur')"
    by (cases "team_step x (m, cur)")
  from team_step_prefix [of x A m cur] have "team_step x (A @ m, cur) = (A @ m', cur')"
    by (simp add: st)
  with Cons [of m' cur'] show ?case by (simp add: st)
qed

lemma team_finish_prefix: "team_finish (A @ m, cur) = A @ team_finish (m, cur)"
  by (auto simp: team_finish_def split: option.splits)

lemma team_merge_from: "team_finish (fold team_step xs (A, None)) = A @ team_merge xs"
proof -
  obtain m cur where st: "fold team_step xs ([], None) = (m, cur)"
    by (cases "fold team_step xs ([], None)")
  from fold_team_prefix [of xs A "[]" None] have "fold team_step xs (A, None) = (A @ m, cur)"
    by (simp add: st)
  then show ?thesis
    by (simp add: team_merge_def st team_finish_prefix)
qed

lemma team_step_after_run:
  assumes "is_digest p \<or> is_cm p \<or> team p \<noteq> t"
  shows "team_step p (M, Some (t, s, e)) = team_step p (M @ [(t, s, e)], None)"
  using assms by (auto simp: team_step_def close_run_def)

lemma team_run_closed:
  assumes "t \<noteq> []"
    and "post = [] \<or> is_digest (hd post) \<or> is_cm (hd post) \<or> team (hd post) \<noteq> t"
  shows "team_finish (fold team_step post (M, Some (t, s, e))) = M @ [(t, s, e)] @ team_merge post"
proof (cases post)
  case Nil
  with assms(1) show ?thesis by (simp add: team_finish_def team_merge_def)
next
  case (Cons p ps)
  with assms(2) have "is_digest p \<or> is_cm p \<or> team p \<noteq> t" by simp
  from team_step_after_run [OF this, of M s e]
  have "fold team_step post (M, Some (t, s, e)) = fold team_step post (M @ [(t, s, e)], None)"
    by (simp add: Cons)
  then show ?thesis
    by (simp add: team_merge_from)
qed

lemma team_merge_split:
  assumes "run \<noteq> []" and "\<forall>r\<in>set run. \<not> is_digest r \<and> \<not> is_cm r \<and> team r = t"
    and "t \<noteq> []"
    and "pre = [] \<or> is_digest (last pre) \<or> is_cm (last pre) \<or> team (last pre) \<noteq> t"
    and "post = [] \<or> is_digest (hd post) \<or> is_cm (hd post) \<or> team (hd post) \<noteq> t"
  shows "team_merge (pre @ run @ post)
           = close_run (fst (fold team_step pre ([], None))) (snd (fold team_step pre ([], None)))
             @ [(t, start_s (hd run), end_s (last run))] @ team_merge post"
proof -
  from assms(1) obtain r rs where run: "run = r # rs" by (cases run) auto
  with assms(2) have r: "\<not> is_digest r" "\<not> is_cm r" "team r = t"
    and rs: "\<forall>x\<in>set rs. \<not> is_digest x \<and> \<not> is_cm x \<and> team x = t" by simp_all
  obtain m cur where st: "fold team_step pre ([], None) = (m, cur)"
    by (cases "fold team_step pre ([], None)")
  from team_before_run [OF assms(4)] have "map_option fst cur \<noteq> Some (team r)"
    by (simp add: st r(3))
  from team_step_open [OF r(1,2) this, of m]
  have opened: "team_step r (m, cur) = (close_run m cur, Some (t, start_s r, end_s r))"
    by (simp add: r(3))
  have lst: "last (end_s r # map end_s rs) = end_s (last (r # rs))"
    using last_map [of "r # rs" end_s] by simp
  have "fold team_step run (m, cur)
      = (close_run m cur, Some (t, start_s r, end_s (last (r # rs))))"
    using fold_team_extend [OF rs, of "close_run m cur" "start_s r" "end_s r"]
    by (simp only: run fold_simps opened lst)
  then have "team_merge (pre @ run @ post)
      = team_finish (fold team_step post
          (close_run m cur, Some (t, start_s (hd run), end_s (last run))))"
    by (simp add: team_merge_def st run)
  with team_run_closed [OF assms(3,5)] show ?thesis by (simp add: st)
qed

text \<open>The starts of the merged spans are starts of rows, in the order of the rows.\<close>

lemma team_step_starts:
  "subseq (map (\<lambda>sp. fst (snd sp)) (case team_step x (m, cur) of (m', cur') \<Rightarrow> close_run m' cur'))
          (map (\<lambda>sp. fst (snd sp)) (close_run m cur) @ [start_s x])"
  by (auto simp: team_step_def close_run_def split: option.splits intro: subseq_rev_drop_many)

lemma team_finish_starts:
  "subseq (map (\<lambda>sp. fst (snd sp)) (team_finish (m, cur)))
          (map (\<lambda>sp. fst (snd sp)) (close_run m cur))"
  by (auto simp: team_finish_def close_run_def split: option.splits intro: subseq_rev_drop_many)

lemma team_loop_starts:
  "subseq (map (\<lambda>sp. fst (snd sp)) (team_finish (fold team_step xs (m, cur))))
          (map (\<lambda>sp. fst (snd sp)) (close_run m cur) @ map start_s xs)"
proof (induction xs arbitrary: m cur)
  case Nil
  show ?case using team_finish_starts [of m cur] by simp
next
  case (Cons x xs)
  obtain m' cur' where st: "team_step x (m, cur) = (m', cur')"
    by (cases "team_step x (m, cur)")
  have a: "subseq (map (\<lambda>sp. fst (snd sp)) (team_finish (fold team_step xs (m', cur'))))
                  (map (\<lambda>sp. fst (snd sp)) (close_run m' cur') @ map start_s xs)"
    by (rule Cons)
  have "subseq (map (\<lambda>sp. fst (snd sp)) (close_run m' cur'))
               (map (\<lambda>sp. fst (snd sp)) (close_run m cur) @ [start_s x])"
    using team_step_starts [of x m cur] by (simp add: st)
  then have b: "subseq (map (\<lambda>sp. fst (snd sp)) (close_run m' cur') @ map start_s xs)
                  ((map (\<lambda>sp. fst (snd sp)) (close_run m cur) @ [start_s x]) @ map start_s xs)"
    by (rule list_emb_append_mono) simp
  from subseq_order.trans [OF a b] show ?case by (simp add: st)
qed

lemma subseq_distinct: "subseq xs ys \<Longrightarrow> distinct ys \<Longrightarrow> distinct xs"
  by (auto simp: subseq_conv_nths)

lemma team_merge_distinct:
  assumes "distinct (map start_s df)"
  shows "distinct (team_merge df)"
proof -
  have "subseq (map (\<lambda>sp. fst (snd sp)) (team_merge df)) (map start_s df)"
    using team_loop_starts [of df "[]" None] by (simp add: team_merge_def close_run_def)
  from subseq_distinct [OF this assms] show ?thesis by (rule distinct_map [THEN iffD1, THEN conjunct1])
qed

text \<open>
  As C2 states it, the span of a run is in the merged output exactly once. The rows
  \<open>absorbed_rows\<close> are at the offsets of a \<open>float64\<close> column with the durations
  3600, \<open>1e-13\<close>, \<open>1e-13\<close> and \<open>1e-13\<close>: the three short rows start and end at
  3600. Their teams are X, A, B and A, so the second and the fourth row are two maximal
  runs of team A, and the span from 3600 to 3600 of team A is in the merged output
  twice.
\<close>

theorem team_merge_equal_spans_counterexample:
  "map (\<lambda>(s, e). f64_eq s (f64_of_int 3600) \<and> f64_eq e (f64_of_int 3600))
       (tl (offsets_f64 absorbed)) = [True, True, True]
   \<and> map team absorbed_rows = [ascii ''X'', ascii ''A'', ascii ''B'', ascii ''A'']
   \<and> map (\<lambda>r. (is_digest r, is_cm r)) absorbed_rows
       = [(False, False), (False, False), (False, False), (False, False)]
   \<and> map (\<lambda>r. (start_s r, end_s r)) absorbed_rows
       = [(0, 3600), (3600, 3600), (3600, 3600), (3600, 3600)]
   \<and> team_merge absorbed_rows
       = [(ascii ''X'', 0, 3600), (ascii ''A'', 3600, 3600), (ascii ''B'', 3600, 3600),
          (ascii ''A'', 3600, 3600)]
   \<and> count_list (team_merge absorbed_rows) (ascii ''A'', 3600, 3600) = 2"
proof -
  have o: "map (\<lambda>(s, e). f64_eq s (f64_of_int 3600) \<and> f64_eq e (f64_of_int 3600))
       (tl (offsets_f64 absorbed)) = [True, True, True]"
    by (simp add: offsets_f64_absorbed f64_of_int_def)
  have r: "map team absorbed_rows = [ascii ''X'', ascii ''A'', ascii ''B'', ascii ''A'']"
    "map (\<lambda>r. (is_digest r, is_cm r)) absorbed_rows
       = [(False, False), (False, False), (False, False), (False, False)]"
    "map (\<lambda>r. (start_s r, end_s r)) absorbed_rows
       = [(0, 3600), (3600, 3600), (3600, 3600), (3600, 3600)]"
    by (simp_all add: absorbed_rows_def)
  have m: "team_merge absorbed_rows
       = [(ascii ''X'', 0, 3600), (ascii ''A'', 3600, 3600), (ascii ''B'', 3600, 3600),
          (ascii ''A'', 3600, 3600)]"
    by (simp add: absorbed_rows_def team_merge_def team_step_def team_finish_def close_run_def
        ascii_def)
  have "count_list (team_merge absorbed_rows) (ascii ''A'', 3600, 3600) = 2"
    unfolding m by (simp add: ascii_def)
  with o r m show ?thesis by blast
qed

text \<open>
  C2, amended. A maximal run of rows of one team with a label that is not empty, none of
  them a digest or a commercial, with no such row of that team just before or just after
  it, is not dropped: it gives exactly one element of the merged output, the span from
  the start of its first row to the end of its last row. The merged output is the spans
  closed by the rows before the run, then this one span, then the merged output of the
  rows after the run, whatever the offsets of the rows are. When the rows start at
  different times no other element of the output is equal to that span; runs of one
  team that start and end at equal times give equal spans, one for each run.
\<close>

theorem team_merge_keeps_runs:
  assumes "run \<noteq> []" and "\<forall>r\<in>set run. \<not> is_digest r \<and> \<not> is_cm r \<and> team r = t"
    and "t \<noteq> []"
    and "pre = [] \<or> is_digest (last pre) \<or> is_cm (last pre) \<or> team (last pre) \<noteq> t"
    and "post = [] \<or> is_digest (hd post) \<or> is_cm (hd post) \<or> team (hd post) \<noteq> t"
  shows "(t, start_s (hd run), end_s (last run)) \<in> set (team_merge (pre @ run @ post))
       \<and> team_merge (pre @ run @ post)
           = close_run (fst (fold team_step pre ([], None))) (snd (fold team_step pre ([], None)))
             @ [(t, start_s (hd run), end_s (last run))] @ team_merge post
       \<and> (distinct (map start_s (pre @ run @ post)) \<longrightarrow>
            count_list (team_merge (pre @ run @ post)) (t, start_s (hd run), end_s (last run)) = 1)"
proof -
  have e: "team_merge (pre @ run @ post)
           = close_run (fst (fold team_step pre ([], None))) (snd (fold team_step pre ([], None)))
             @ [(t, start_s (hd run), end_s (last run))] @ team_merge post"
    by (rule team_merge_split [OF assms])
  then have m: "(t, start_s (hd run), end_s (last run)) \<in> set (team_merge (pre @ run @ post))"
    by simp
  have "count_list (team_merge (pre @ run @ post)) (t, start_s (hd run), end_s (last run)) = 1"
    if "distinct (map start_s (pre @ run @ post))"
  proof -
    from team_merge_distinct [OF that] m
    have "count (mset (team_merge (pre @ run @ post))) (t, start_s (hd run), end_s (last run)) = 1"
      by (simp only: distinct_count_atmost_1 if_True)
    then show ?thesis by (simp only: count_mset)
  qed
  with m e show ?thesis by blast
qed

theorem team_merge_keeps_runs_witness:
  "take 2 (process_sheet commercial_sheet True) \<noteq> []
   \<and> ascii ''A'' \<noteq> []
   \<and> is_cm (hd (drop 2 (process_sheet commercial_sheet True)))
   \<and> distinct (map start_s (process_sheet commercial_sheet True))
   \<and> (ascii ''A'', 0, 900) \<in> set (team_merge (process_sheet commercial_sheet True))
   \<and> team_merge (process_sheet commercial_sheet True)
       = [] @ [(ascii ''A'', 0, 900)] @ team_merge (drop 2 (process_sheet commercial_sheet True))
   \<and> count_list (team_merge (process_sheet commercial_sheet True)) (ascii ''A'', 0, 900) = 1"
proof -
  have run: "take 2 (process_sheet commercial_sheet True) \<noteq> []"
    and same: "\<forall>r\<in>set (take 2 (process_sheet commercial_sheet True)).
                 \<not> is_digest r \<and> \<not> is_cm r \<and> team r = ascii ''A''"
    and t: "ascii ''A'' \<noteq> []"
    and cm: "is_cm (hd (drop 2 (process_sheet commercial_sheet True)))"
    and s: "start_s (hd (take 2 (process_sheet commercial_sheet True))) = 0"
    and e: "end_s (last (take 2 (process_sheet commercial_sheet True))) = 900"
    and d: "distinct (map start_s (process_sheet commercial_sheet True))"
    by (simp_all add: eval_sheet commercial_sheet_def)
  have pre: "[] = [] \<or> is_digest (last []) \<or> is_cm (last []) \<or> team (last []) \<noteq> ascii ''A''"
    by simp
  from cm have post: "drop 2 (process_sheet commercial_sheet True) = []
      \<or> is_digest (hd (drop 2 (process_sheet commercial_sheet True)))
      \<or> is_cm (hd (drop 2 (process_sheet commercial_sheet True)))
      \<or> team (hd (drop 2 (process_sheet commercial_sheet True))) \<noteq> ascii ''A''"
    by blast
  have whole: "[] @ take 2 (process_sheet commercial_sheet True)
      @ drop 2 (process_sheet commercial_sheet True) = process_sheet commercial_sheet True"
    by simp
  have before: "close_run (fst (fold team_step [] ([], None))) (snd (fold team_step [] ([], None)))
      = ([] :: span list)"
    by (simp add: close_run_def)
  note th = team_merge_keeps_runs [OF run same t pre post, unfolded whole s e before]
  from th run t cm d show ?thesis by blast
qed

section \<open>Every queued label is placed\<close>

lemma placed_draw_label [simp]:
  "placed (draw_label direction d i x_try y lanes st)
     = placed st @ [\<lparr> p_item = d, p_lane = i, p_x = x_try, p_y = y \<rparr>]"
  by (simp add: draw_label_def)

lemma lane_end_draw_label [simp]:
  "lane_end (draw_label direction d i x_try y lanes st) = lanes"
  by (simp add: draw_label_def)

lemma place_item_items:
  "map p_item (placed (place_item direction y_base xmin xmax d st)) = map p_item (placed st) @ [d]"
  by (simp add: place_item_def Let_def split: option.splits)

lemma fold_place_items:
  "map p_item (placed (fold (place_item direction y_base xmin xmax) items st))
     = map p_item (placed st) @ items"
  by (induction items arbitrary: st) (simp_all add: place_item_items)

lemma place_band_items:
  "map p_item (placed (place_band band_items direction y_base xmin xmax ext)) = band_items"
  by (simp add: place_band_def fold_place_items)

lemma split_fold_mset:
  "(case fold (\<lambda>(i, d) (top_items, bottom_items).
             if i mod 2 = 0 then (top_items @ [d], bottom_items)
             else (top_items, bottom_items @ [d]))
       (enumerate n items) (t, b) of (t', b') \<Rightarrow> mset t' + mset b')
     = mset t + mset b + mset items"
  by (induction items arbitrary: n t b) simp_all

lemma split_bands_mset:
  "mset (fst (split_bands items)) + mset (snd (split_bands items)) = mset items"
  using split_fold_mset [of 0 items "[]" "[]"]
  by (simp add: split_bands_def split: prod.splits)

lemma draw_row_items:
  "mset (map p_item (fst (draw_row_outside_labels items y_base xmin xmax)
                      @ fst (snd (draw_row_outside_labels items y_base xmin xmax))))
     = mset items"
proof (cases "items = []")
  case True
  then show ?thesis by (simp add: draw_row_outside_labels_def)
next
  case False
  obtain t b where sb: "split_bands (sort_key anchor_x items) = (t, b)"
    by (cases "split_bands (sort_key anchor_x items)")
  from split_bands_mset [of "sort_key anchor_x items"] have "mset t + mset b = mset items"
    by (simp add: sb)
  with False show ?thesis
    by (simp add: draw_row_outside_labels_def Let_def sb place_band_items)
qed

text \<open>Labels that no lane can take twice: each opens a lane of its own.\<close>

lemma try_lanes_crowded:
  assumes "xmax - w - right_margin < v + min_gap"
  shows "try_lanes x0 w xmax i (replicate k v) = None"
  using assms by (induction k arbitrary: i) (simp_all add: Let_def)

lemma fold_place_crowded:
  assumes "xmax - width d - right_margin \<le> pref_x d" and "0 \<le> width d"
    and "lane_end st = replicate k (max (xmin + left_margin) (xmax - width d - right_margin) + width d)"
  shows "map p_lane (placed (fold (place_item direction y_base xmin xmax) (replicate n d) st))
           = map p_lane (placed st) @ [k..<k + n]
       \<and> length (lane_end (fold (place_item direction y_base xmin xmax) (replicate n d) st)) = k + n"
  using assms(3)
proof (induction n arbitrary: st k)
  case 0
  then show ?case by simp
next
  case (Suc n)
  define x0 where "x0 = max (xmin + left_margin) (xmax - width d - right_margin)"
  have x0: "max (xmin + left_margin) (min (pref_x d) (xmax - width d - right_margin)) = x0"
    using assms(1) by (simp add: x0_def min_def)
  have "xmax - width d - right_margin < x0 + width d + min_gap"
    using assms(2) by (simp add: x0_def min_gap_def max_def)
  then have none: "try_lanes x0 (width d) xmax 0 (replicate k (x0 + width d)) = None"
    by (rule try_lanes_crowded)
  define st' where "st' = place_item direction y_base xmin xmax d st"
  have lanes': "lane_end st' = replicate (Suc k) (x0 + width d)"
    using Suc.prems none
    by (simp add: st'_def place_item_def Let_def x0 x0_def [symmetric] replicate_append_same)
  have placed': "map p_lane (placed st') = map p_lane (placed st) @ [k]"
    using Suc.prems none
    by (simp add: st'_def place_item_def Let_def x0 x0_def [symmetric])
  from Suc.IH [of st' "Suc k"] lanes'
  have "map p_lane (placed (fold (place_item direction y_base xmin xmax) (replicate n d) st'))
           = map p_lane (placed st') @ [Suc k..<Suc k + n]
       \<and> length (lane_end (fold (place_item direction y_base xmin xmax) (replicate n d) st')) = Suc k + n"
    by (simp add: x0_def)
  then show ?case
    by (simp add: st'_def [symmetric] placed' upt_conv_Cons)
qed

text \<open>
  C3. The lane assignment is a total function, so it ends on every list of requests.
  A band places its requests one for one and in their order; a row places each of its
  requests once, above or below. There is no branch that leaves a request out: a label
  that fits no lane opens a new one. When \<open>n\<close> equal labels cannot share a lane, the
  band opens \<open>n\<close> lanes and places all of them.
\<close>

theorem layout_places_every_label:
  "map p_item (placed (place_band band_items direction y_base xmin xmax ext)) = band_items
   \<and> mset (map p_item (fst (draw_row_outside_labels items y_base xmin xmax)
                       @ fst (snd (draw_row_outside_labels items y_base xmin xmax))))
       = mset items
   \<and> (xmax - width d - right_margin \<le> pref_x d \<and> 0 \<le> width d \<longrightarrow>
        map p_lane (placed (place_band (replicate n d) direction y_base xmin xmax ext)) = [0..<n]
        \<and> map p_item (placed (place_band (replicate n d) direction y_base xmin xmax ext))
            = replicate n d
        \<and> length (lane_end (place_band (replicate n d) direction y_base xmin xmax ext)) = n)"
proof -
  have "map p_lane (placed (place_band (replicate n d) direction y_base xmin xmax ext)) = [0..<n]
      \<and> length (lane_end (place_band (replicate n d) direction y_base xmin xmax ext)) = n"
    if "xmax - width d - right_margin \<le> pref_x d" "0 \<le> width d"
    using fold_place_crowded [OF that, of "\<lparr> lane_end = [], placed = [], top_max_y = fst ext,
      bottom_min_y = snd ext \<rparr>" 0 xmin direction y_base n]
    by (simp add: place_band_def)
  then show ?thesis
    using place_band_items draw_row_items by blast
qed

theorem layout_places_every_label_witness:
  "7200 - width wide_label - right_margin \<le> pref_x wide_label \<and> 0 \<le> width wide_label
   \<and> map p_lane (placed (place_band (replicate 3 wide_label) 1 0 0 7200 (0, 0))) = [0, 1, 2]
   \<and> map p_item (placed (place_band (replicate 3 wide_label) 1 0 0 7200 (0, 0)))
       = [wide_label, wide_label, wide_label]
   \<and> length (lane_end (place_band (replicate 3 wide_label) 1 0 0 7200 (0, 0))) = 3"
proof -
  have h: "7200 - width wide_label - right_margin \<le> pref_x wide_label" "0 \<le> width wide_label"
    by (simp_all add: wide_label_def right_margin_def)
  have r: "replicate 3 wide_label = [wide_label, wide_label, wide_label]"
    and u: "[0..<3] = [0, 1, 2]"
    by (simp_all add: numeral_3_eq_3 upt_rec)
  from h layout_places_every_label [where d = wide_label and n = 3 and xmax = 7200
      and xmin = 0 and direction = 1 and y_base = 0 and ext = "(0, 0)"]
  have "map p_lane (placed (place_band (replicate 3 wide_label) 1 0 0 7200 (0, 0))) = [0..<3]
      \<and> map p_item (placed (place_band (replicate 3 wide_label) 1 0 0 7200 (0, 0)))
          = replicate 3 wide_label
      \<and> length (lane_end (place_band (replicate 3 wide_label) 1 0 0 7200 (0, 0))) = 3"
    by blast
  with h show ?thesis by (simp only: r u simp_thms)
qed

section \<open>No overlap within a lane\<close>

lemma try_lanes_Some:
  "try_lanes x0 w xmax i lanes = Some (k, x) \<Longrightarrow>
   i \<le> k \<and> k - i < length lanes \<and> lanes ! (k - i) + min_gap \<le> x"
proof (induction lanes arbitrary: i)
  case Nil
  then show ?case by simp
next
  case (Cons endx rest)
  define xt where "xt = max x0 (endx + min_gap)"
  from Cons.prems
  have p: "(if xt \<le> xmax - w - right_margin then Some (i, xt)
            else try_lanes x0 w xmax (Suc i) rest) = Some (k, x)"
    unfolding xt_def by (simp only: try_lanes.simps Let_def)
  show ?case
  proof (cases "xt \<le> xmax - w - right_margin")
    case True
    with p have "k = i" "x = xt" by simp_all
    moreover have "endx + min_gap \<le> xt" by (simp add: xt_def)
    ultimately show ?thesis by simp
  next
    case False
    with p have "try_lanes x0 w xmax (Suc i) rest = Some (k, x)" by simp
    from Cons.IH [OF this]
    have a: "Suc i \<le> k" and b: "k - Suc i < length rest" and c: "rest ! (k - Suc i) + min_gap \<le> x"
      by simp_all
    from a have "k - i = Suc (k - Suc i)" by simp
    with a b c show ?thesis by simp
  qed
qed

lemma lanes_inv_start:
  "lanes_inv \<lparr> lane_end = [], placed = [], top_max_y = t, bottom_min_y = b \<rparr>"
  by (simp add: lanes_inv_def)

lemma lanes_inv_existing:
  assumes inv: "lanes_inv st" and w: "0 \<le> width d"
    and k: "k < length (lane_end st)" and x: "lane_end st ! k + min_gap \<le> x"
  shows "lanes_inv (draw_label direction d k x y ((lane_end st)[k := x + width d]) st)"
proof -
  let ?q = "\<lparr> p_item = d, p_lane = k, p_x = x, p_y = y \<rparr>"
  from inv have s: "sorted_wrt clear_of (placed st)"
    and b: "\<forall>p\<in>set (placed st). p_lane p < length (lane_end st)
              \<and> p_x p + width (p_item p) \<le> lane_end st ! p_lane p"
    by (simp_all add: lanes_inv_def)
  have g: "0 \<le> min_gap" by (simp add: min_gap_def)
  have c: "\<forall>p\<in>set (placed st). clear_of p ?q"
  proof
    fix p assume "p \<in> set (placed st)"
    with b have "p_x p + width (p_item p) \<le> lane_end st ! p_lane p" by blast
    with x show "clear_of p ?q" by (auto simp: clear_of_def)
  qed
  have e: "\<forall>p\<in>set (placed st). p_lane p < length ((lane_end st)[k := x + width d])
             \<and> p_x p + width (p_item p) \<le> (lane_end st)[k := x + width d] ! p_lane p"
  proof
    fix p assume p: "p \<in> set (placed st)"
    with b have l: "p_lane p < length (lane_end st)"
      and r: "p_x p + width (p_item p) \<le> lane_end st ! p_lane p" by blast+
    show "p_lane p < length ((lane_end st)[k := x + width d])
             \<and> p_x p + width (p_item p) \<le> (lane_end st)[k := x + width d] ! p_lane p"
    proof (cases "p_lane p = k")
      case True
      from r True x g w have "p_x p + width (p_item p) \<le> x + width d" by simp
      with l True show ?thesis by simp
    next
      case False
      with l r show ?thesis by simp
    qed
  qed
  from s c e k show ?thesis
    by (simp add: lanes_inv_def sorted_wrt_append)
qed

lemma lanes_inv_new:
  assumes inv: "lanes_inv st"
  shows "lanes_inv (draw_label direction d (length (lane_end st)) x y (lane_end st @ [x + width d]) st)"
proof -
  let ?q = "\<lparr> p_item = d, p_lane = length (lane_end st), p_x = x, p_y = y \<rparr>"
  from inv have s: "sorted_wrt clear_of (placed st)"
    and b: "\<forall>p\<in>set (placed st). p_lane p < length (lane_end st)
              \<and> p_x p + width (p_item p) \<le> lane_end st ! p_lane p"
    by (simp_all add: lanes_inv_def)
  have c: "\<forall>p\<in>set (placed st). clear_of p ?q"
    using b by (auto simp: clear_of_def)
  have e: "\<forall>p\<in>set (placed st). p_lane p < length (lane_end st @ [x + width d])
             \<and> p_x p + width (p_item p) \<le> (lane_end st @ [x + width d]) ! p_lane p"
    using b by (auto simp: nth_append)
  from s c e show ?thesis
    by (simp add: lanes_inv_def sorted_wrt_append)
qed

lemma place_item_inv:
  assumes "lanes_inv st" and "0 \<le> width d"
  shows "lanes_inv (place_item direction y_base xmin xmax d st)"
proof -
  define x0 where "x0 = max (xmin + left_margin) (min (pref_x d) (xmax - width d - right_margin))"
  show ?thesis
  proof (cases "try_lanes x0 (width d) xmax 0 (lane_end st)")
    case None
    then show ?thesis
      using lanes_inv_new [OF assms(1)]
      by (simp add: place_item_def Let_def x0_def [symmetric])
  next
    case (Some kx)
    obtain k x where kx: "kx = (k, x)" by (cases kx)
    from try_lanes_Some [of x0 "width d" xmax 0 "lane_end st" k x] Some
    have "k < length (lane_end st)" "lane_end st ! k + min_gap \<le> x"
      by (simp_all add: kx)
    from lanes_inv_existing [OF assms this] Some show ?thesis
      by (simp add: place_item_def Let_def x0_def [symmetric] kx)
  qed
qed

lemma fold_place_inv:
  assumes "lanes_inv st" and "\<forall>d\<in>set items. 0 \<le> width d"
  shows "lanes_inv (fold (place_item direction y_base xmin xmax) items st)"
  using assms by (induction items arbitrary: st) (simp_all add: place_item_inv)

lemma place_band_clear:
  assumes "\<forall>d\<in>set band_items. 0 \<le> width d"
  shows "sorted_wrt clear_of (placed (place_band band_items direction y_base xmin xmax ext))"
  using fold_place_inv [OF lanes_inv_start assms]
  by (simp add: place_band_def lanes_inv_def)

lemma split_bands_subset:
  "set (fst (split_bands items)) \<subseteq> set items \<and> set (snd (split_bands items)) \<subseteq> set items"
proof -
  have "set_mset (mset (fst (split_bands items)) + mset (snd (split_bands items)))
          = set_mset (mset items)"
    by (simp only: split_bands_mset)
  then show ?thesis by auto
qed

lemma draw_row_clear:
  assumes "\<forall>d\<in>set items. 0 \<le> width d"
  shows "sorted_wrt clear_of (fst (draw_row_outside_labels items y_base xmin xmax))
       \<and> sorted_wrt clear_of (fst (snd (draw_row_outside_labels items y_base xmin xmax)))"
proof (cases "items = []")
  case True
  then show ?thesis by (simp add: draw_row_outside_labels_def)
next
  case False
  obtain t b where sb: "split_bands (sort_key anchor_x items) = (t, b)"
    by (cases "split_bands (sort_key anchor_x items)")
  from split_bands_subset [of "sort_key anchor_x items"]
  have "set t \<subseteq> set items" "set b \<subseteq> set items" by (simp_all add: sb)
  with assms have t: "\<forall>d\<in>set t. 0 \<le> width d" and b: "\<forall>d\<in>set b. 0 \<le> width d" by blast+
  from False place_band_clear [OF t] place_band_clear [OF b] show ?thesis
    by (simp add: draw_row_outside_labels_def Let_def sb)
qed

text \<open>Every label that a row queues is at least 6 seconds wide.\<close>

lemma team_label_width:
  assumes "\<forall>d\<in>set (snd st). 6 \<le> width d" and "\<forall>w. bb = Inr w \<longrightarrow> 0 \<le> w"
    and "team_label bb y0 sp st = Inr st'"
  shows "\<forall>d\<in>set (snd st'). 6 \<le> width d"
proof (cases bb)
  case (Inl err)
  with assms(1,3) show ?thesis
    by (cases sp; cases st) (auto simp: team_label_def Let_def need_sec_Inl split: if_splits)
next
  case (Inr w)
  with assms(2) have "0 \<le> w" by blast
  with assms(1,3) Inr show ?thesis
    by (cases sp; cases st) (auto simp: team_label_def Let_def need_sec_Inr split: if_splits)
qed

lemma digest_label_width:
  assumes "\<forall>d\<in>set (snd st). 6 \<le> width d" and "\<forall>w. bb = Inr w \<longrightarrow> 0 \<le> w"
    and "digest_label bb y0 g st = Inr st'"
  shows "\<forall>d\<in>set (snd st'). 6 \<le> width d"
proof (cases bb)
  case (Inl err)
  with assms(3) show ?thesis
    by (cases g; cases st) (simp add: digest_label_def Let_def need_sec_Inl)
next
  case (Inr w)
  with assms(2) have "0 \<le> w" by blast
  with assms(1,3) Inr show ?thesis
    by (cases g; cases st) (auto simp: digest_label_def Let_def need_sec_Inr split: if_splits)
qed

lemma label_loop_width:
  assumes step: "\<And>x st st'. \<forall>d\<in>set (snd st). 6 \<le> width d \<Longrightarrow> body x st = Inr st' \<Longrightarrow>
                  \<forall>d\<in>set (snd st'). 6 \<le> width (d :: outside_label)"
    and "\<forall>d\<in>set (snd st). 6 \<le> width d" and "label_loop body xs st = Inr st'"
  shows "\<forall>d\<in>set (snd st'). 6 \<le> width d"
  using assms(2,3)
proof (induction xs arbitrary: st)
  case Nil
  then show ?case by simp
next
  case (Cons x xs)
  from Cons.prems(2) obtain st1 where b: "body x st = Inr st1"
    and l: "label_loop body xs st1 = Inr st'"
    by (auto split: sum.splits)
  from step [OF Cons.prems(1) b] have "\<forall>d\<in>set (snd st1). 6 \<le> width d" .
  from Cons.IH [OF this l] show ?case .
qed

lemma row_labels_width:
  assumes "\<And>s w. tw s = Inr w \<Longrightarrow> 0 \<le> w"
    and "row_labels tw y0 merged digest_groups = Inr st"
  shows "\<forall>d\<in>set (snd st). 6 \<le> width d"
proof -
  from assms(2) obtain st1
    where a: "label_loop (\<lambda>sp. team_label (tw (fst sp)) y0 sp) merged ([], []) = Inr st1"
      and b: "label_loop (\<lambda>g. digest_label (tw (digest_text (snd (snd g)))) y0 g)
                digest_groups st1 = Inr st"
    by (auto simp: row_labels_def split: sum.splits)
  have "\<forall>d\<in>set (snd st1). 6 \<le> width d"
  proof (rule label_loop_width [OF _ _ a])
    fix x st st'
    assume p: "\<forall>d\<in>set (snd st). 6 \<le> width d"
      and q: "team_label (tw (fst x)) y0 x st = Inr st'"
    have "\<forall>w. tw (fst x) = Inr w \<longrightarrow> 0 \<le> w"
      using assms(1) by blast
    from team_label_width [OF p this q] show "\<forall>d\<in>set (snd st'). 6 \<le> width d" .
  next
    show "\<forall>d\<in>set (snd ([], [])). 6 \<le> width (d :: outside_label)" by simp
  qed
  then show ?thesis
  proof (rule label_loop_width [OF _ _ b, rotated])
    fix x st st'
    assume p: "\<forall>d\<in>set (snd st). 6 \<le> width d"
      and q: "digest_label (tw (digest_text (snd (snd x)))) y0 x st = Inr st'"
    have "\<forall>w. tw (digest_text (snd (snd x))) = Inr w \<longrightarrow> 0 \<le> w"
      using assms(1) by blast
    from digest_label_width [OF p this q] show "\<forall>d\<in>set (snd st'). 6 \<le> width d" .
  qed
qed

text \<open>
  C4. In one band, of labels none of which has a negative width, two labels placed in the
  same lane do not overlap: the right edge of the one placed earlier, plus the minimum gap
  of 10 seconds, is at most the left edge of the one placed later. \<open>place_band\<close> fills
  the band above and the band below a row, each from no lane; the labels that
  \<open>generate\<close> queues are at least 6 seconds wide when no text has a negative rendered
  width.
\<close>

theorem same_lane_no_overlap:
  assumes "\<forall>d\<in>set band_items. 0 \<le> width d"
    and "ps = placed (place_band band_items direction y_base xmin xmax ext)"
    and "i < j" and "j < length ps" and "p_lane (ps ! i) = p_lane (ps ! j)"
  shows "p_x (ps ! i) + width (p_item (ps ! i)) + min_gap \<le> p_x (ps ! j)"
proof -
  from place_band_clear [OF assms(1)] have "sorted_wrt clear_of ps"
    by (simp add: assms(2))
  from sorted_wrt_nth_less [OF this assms(3,4)] assms(5) show ?thesis
    by (simp add: clear_of_def)
qed

theorem same_lane_no_overlap_witness:
  "(0::nat) < 1 \<and> 1 < length (placed (place_band three_labels 1 0 0 7200 (0.35, - 0.35)))
   \<and> p_lane (placed (place_band three_labels 1 0 0 7200 (0.35, - 0.35)) ! 0)
       = p_lane (placed (place_band three_labels 1 0 0 7200 (0.35, - 0.35)) ! 1)
   \<and> p_x (placed (place_band three_labels 1 0 0 7200 (0.35, - 0.35)) ! 0) = 106
   \<and> width (p_item (placed (place_band three_labels 1 0 0 7200 (0.35, - 0.35)) ! 0)) = 50
   \<and> p_x (placed (place_band three_labels 1 0 0 7200 (0.35, - 0.35)) ! 1) = 166
   \<and> p_x (placed (place_band three_labels 1 0 0 7200 (0.35, - 0.35)) ! 0)
       + width (p_item (placed (place_band three_labels 1 0 0 7200 (0.35, - 0.35)) ! 0)) + min_gap
     \<le> p_x (placed (place_band three_labels 1 0 0 7200 (0.35, - 0.35)) ! 1)"
proof -
  have w: "\<forall>d\<in>set three_labels. 0 \<le> width d"
    by (simp add: three_labels_def wide_label_def)
  have l: "1 < length (placed (place_band three_labels 1 0 0 7200 (0.35, - 0.35)))"
    and n: "p_lane (placed (place_band three_labels 1 0 0 7200 (0.35, - 0.35)) ! 0)
       = p_lane (placed (place_band three_labels 1 0 0 7200 (0.35, - 0.35)) ! 1)"
    and v: "p_x (placed (place_band three_labels 1 0 0 7200 (0.35, - 0.35)) ! 0) = 106"
      "width (p_item (placed (place_band three_labels 1 0 0 7200 (0.35, - 0.35)) ! 0)) = 50"
      "p_x (placed (place_band three_labels 1 0 0 7200 (0.35, - 0.35)) ! 1) = 166"
    by (simp_all add: three_labels_def wide_label_def place_band_def place_item_def
        draw_label_def Let_def min_gap_def left_margin_def right_margin_def)
  have o: "(0::nat) < 1" by simp
  from same_lane_no_overlap [OF w refl o l n] o l n v show ?thesis by blast
qed

end
